theory Spec2Isabelle
  imports Complex_Main "HOL-Library.Word" "HOL-Library.Multiset"
begin

section \<open>Data model of \<open>CaptureDevice\<close>\<close>

text \<open>
  The development embeds \<open>src/CaptureDevice.cpp\<close>.  The functions are translated from
  that file; the declarations of \<open>class CaptureDevice\<close> and \<open>struct Buffer\<close>
  (\<open>CaptureDevice.hpp\<close>) are not among the sources, so the types of the members are
  read off their uses in the functions and off the specification.
\<close>

type_synonym u32 = "32 word"

text \<open>A \<open>Buffer*\<close>: the identity of a \<open>Buffer\<close> object owned by \<open>m_buffers\<close>.\<close>

type_synonym addr = nat

record timespec =
  tv_sec :: int
  tv_nsec :: int

text \<open>
  Modelled from the spec: the declaration of \<open>struct Buffer\<close> is missing.  The
  members are the three the functions use.  The specification calls \<open>readerCount\<close> an
  integer reader count that must not go negative, and the source asserts
  \<open>readerCount >= 0\<close> after decrementing it: it is a signed integer, modelled without
  a bound.  \<open>time\<close> is a \<open>timespec\<close>.  The member \<open>buffer\<close> is the pointer
  returned by \<open>malloc\<close>: \<open>None\<close> is the null pointer, \<open>Some c\<close> a block of \<open>c\<close>
  bytes (the bytes themselves are written by the device only and play no part below).
\<close>

record Buffer =
  time :: timespec
  readerCount :: int
  buffer :: "nat option"

text \<open>
  How a call can fail to return normally: it waits for the pool mutex (a wait that no
  step of the waiting thread ends), an \<open>assert\<close> fires (assertions are compiled in, as
  in a debug build), \<open>abort()\<close> is called, or the C++ has undefined behaviour (a
  dangling pointer is dereferenced, \<open>back()\<close> of an empty deque is taken).
\<close>

datatype fault = Blocked | AssertFailed | Aborted | UndefinedBehaviour

text \<open>
  Where the capture thread stands in \<open>captureThread\<close>: at the \<open>while\<close> test, in
  \<open>select\<close>, before the first \<open>lock()\<close>, between \<open>pop_back\<close> and the device read
  (holding the claimed buffer), before the second \<open>lock()\<close>, or returned.
\<close>

datatype capture_pc =
  AtLoopHead | AtSelect | AtClaim | AtRead addr | AtPublish addr | Finished

text \<open>
  Modelled from the spec: the declaration of \<open>class CaptureDevice\<close> is missing.  The
  members are those the functions name; sizes and dimensions are 32-bit unsigned
  (\<open>unsigned int\<close>, \<open>__u32\<close>), as the accessors return them.  \<open>heap\<close> holds the
  \<open>Buffer\<close> objects that the nodes of \<open>m_buffers\<close> contain, by address; \<open>m_buffers\<close>
  and \<open>m_timelySortedBuffers\<close> list addresses, front first (pointers to the elements
  stay valid under \<open>push_front\<close>).  \<open>m_captureThread\<close> is \<open>None\<close> for the null
  pointer and otherwise carries the position of the thread it points to.
  \<open>m_timelySortedBuffersMutex\<close> is \<open>True\<close> while the mutex is locked.
\<close>

record CaptureDevice =
  m_fileDescriptor :: int
  m_captureThread :: "capture_pc option"
  m_captureThreadCancellationFlag :: bool
  m_deviceFileName :: string
  m_captureWidth :: u32
  m_captureHeight :: u32
  m_pixelFormat :: u32
  m_fieldFormat :: u32
  m_bufferSize :: u32
  m_readTimeOut :: u32
  m_timerClockId :: int
  m_timerStart :: timespec
  m_timerResolution :: timespec
  m_realStartTime :: timespec
  m_buffers :: "addr list"
  m_timelySortedBuffers :: "addr list"
  m_timelySortedBuffersMutex :: bool
  heap :: "addr \<rightharpoonup> Buffer"

text \<open>Sequencing of calls that may fail: the first fault ends the run.\<close>

definition and_then :: "fault + 'a \<Rightarrow> ('a \<Rightarrow> fault + 'b) \<Rightarrow> fault + 'b" where
  "and_then m f = (case m of Inl e \<Rightarrow> Inl e | Inr x \<Rightarrow> f x)"

section \<open>The time-ordered pool\<close>

subsection \<open>\<open>lockFirstNBuffers\<close>\<close>

text \<open>
  The \<open>for\<close> loop of \<open>lockFirstNBuffers\<close>: \<open>a\<close> counts up to \<open>n\<close> while the iterator
  walks the deque; every visited pointer is appended to \<open>ret\<close> and its
  \<open>readerCount\<close> incremented.
\<close>

fun lockFirstNBuffers_loop ::
  "nat \<Rightarrow> nat \<Rightarrow> addr list \<Rightarrow> (addr \<rightharpoonup> Buffer) \<Rightarrow> addr list \<Rightarrow> fault + (addr list \<times> (addr \<rightharpoonup> Buffer))"
where
  "lockFirstNBuffers_loop a n [] h ret = Inr (ret, h)"
| "lockFirstNBuffers_loop a n (p # its) h ret =
     (if a < n then
        (case h p of
           None \<Rightarrow> Inl UndefinedBehaviour
         | Some b \<Rightarrow>
             lockFirstNBuffers_loop (a + 1) n its
               (h(p \<mapsto> b\<lparr>readerCount := readerCount b + 1\<rparr>)) (ret @ [p]))
      else Inr (ret, h))"

definition lockFirstNBuffers :: "nat \<Rightarrow> CaptureDevice \<Rightarrow> fault + (addr list \<times> CaptureDevice)" where
  "lockFirstNBuffers n s =
     (if m_timelySortedBuffersMutex s then Inl Blocked
      else
        (case lockFirstNBuffers_loop 0 n (m_timelySortedBuffers s) (heap s) [] of
           Inl e \<Rightarrow> Inl e
         | Inr (ret, h) \<Rightarrow> Inr (ret, s\<lparr>heap := h\<rparr>)))"

subsection \<open>\<open>unlock\<close>\<close>

text \<open>
  The inner loop of \<open>unlock\<close> compares one released pointer with every entry of the
  ordering; a match is decremented and then asserted to be non-negative.
\<close>

fun unlock_inner :: "addr \<Rightarrow> addr list \<Rightarrow> (addr \<rightharpoonup> Buffer) \<Rightarrow> fault + (addr \<rightharpoonup> Buffer)" where
  "unlock_inner p [] h = Inr h"
| "unlock_inner p (q # its2) h =
     (if p = q then
        (case h q of
           None \<Rightarrow> Inl UndefinedBehaviour
         | Some b \<Rightarrow>
             (if readerCount b - 1 \<ge> 0
              then unlock_inner p its2 (h(q \<mapsto> b\<lparr>readerCount := readerCount b - 1\<rparr>))
              else Inl AssertFailed))
      else unlock_inner p its2 h)"

fun unlock_outer :: "addr list \<Rightarrow> addr list \<Rightarrow> (addr \<rightharpoonup> Buffer) \<Rightarrow> fault + (addr \<rightharpoonup> Buffer)" where
  "unlock_outer [] its2 h = Inr h"
| "unlock_outer (p # its) its2 h =
     (case unlock_inner p its2 h of
        Inl e \<Rightarrow> Inl e
      | Inr h' \<Rightarrow> unlock_outer its its2 h')"

definition unlock :: "addr list \<Rightarrow> CaptureDevice \<Rightarrow> fault + CaptureDevice" where
  "unlock buffers s =
     (if m_timelySortedBuffersMutex s then Inl Blocked
      else
        (case unlock_outer buffers (m_timelySortedBuffers s) (heap s) of
           Inl e \<Rightarrow> Inl e
         | Inr h \<Rightarrow> Inr (s\<lparr>heap := h\<rparr>)))"

subsection \<open>\<open>newerBuffersAvailable\<close>\<close>

text \<open>
  The \<open>break\<close> condition of the loop, as the source writes it.  (The source takes
  \<open>begin()\<close> before it locks the mutex; the model performs the whole call under the
  lock.)
\<close>

definition not_newer :: "timespec \<Rightarrow> timespec \<Rightarrow> bool" where
  "not_newer t newerThan \<longleftrightarrow>
     tv_sec t < tv_sec newerThan \<or>
     (tv_sec t = tv_sec newerThan \<and> tv_nsec t \<le> tv_nsec newerThan)"

fun newerBuffersAvailable_loop ::
  "timespec \<Rightarrow> addr list \<Rightarrow> (addr \<rightharpoonup> Buffer) \<Rightarrow> nat \<Rightarrow> fault + nat"
where
  "newerBuffersAvailable_loop newerThan [] h ret = Inr ret"
| "newerBuffersAvailable_loop newerThan (p # its) h ret =
     (case h p of
        None \<Rightarrow> Inl UndefinedBehaviour
      | Some b \<Rightarrow>
          (if not_newer (time b) newerThan then Inr ret
           else newerBuffersAvailable_loop newerThan its h (ret + 1)))"

definition newerBuffersAvailable :: "timespec \<Rightarrow> CaptureDevice \<Rightarrow> fault + nat" where
  "newerBuffersAvailable newerThan s =
     (if m_timelySortedBuffersMutex s then Inl Blocked
      else newerBuffersAvailable_loop newerThan (m_timelySortedBuffers s) (heap s) 0)"

text \<open>
  The reading of the specification: timestamps are compared as pairs
  (seconds, nanoseconds) in lexicographic order.
\<close>

definition ts_less :: "timespec \<Rightarrow> timespec \<Rightarrow> bool" where
  "ts_less a b \<longleftrightarrow> tv_sec a < tv_sec b \<or> (tv_sec a = tv_sec b \<and> tv_nsec a < tv_nsec b)"

definition ts_le :: "timespec \<Rightarrow> timespec \<Rightarrow> bool" where
  "ts_le a b \<longleftrightarrow> tv_sec a < tv_sec b \<or> (tv_sec a = tv_sec b \<and> tv_nsec a \<le> tv_nsec b)"

text \<open>The timestamp a pointer of the ordering leads to.\<close>

definition time_at :: "(addr \<rightharpoonup> Buffer) \<Rightarrow> addr \<Rightarrow> timespec" where
  "time_at h p = time (the (h p))"

text \<open>
  A pool whose lock is free and whose ordering lists distinct, live buffers: the state in
  which a caller thread enters a pool operation.
\<close>

definition pool_ok :: "CaptureDevice \<Rightarrow> bool" where
  "pool_ok s \<longleftrightarrow>
     \<not> m_timelySortedBuffersMutex s \<and>
     distinct (m_timelySortedBuffers s) \<and>
     (\<forall>p \<in> set (m_timelySortedBuffers s). heap s p \<noteq> None)"

text \<open>
  The same without the condition on the lock: what the ordering is like in every state of
  a session, whether its mutex is free or locked.
\<close>

definition pool_live :: "CaptureDevice \<Rightarrow> bool" where
  "pool_live s \<longleftrightarrow>
     distinct (m_timelySortedBuffers s) \<and>
     (\<forall>p \<in> set (m_timelySortedBuffers s). heap s p \<noteq> None)"

section \<open>The capture loop\<close>

text \<open>
  What the environment hands to one iteration of \<open>captureThread\<close>: the return value
  of \<open>select\<close> and whether \<open>errno\<close> is \<open>EINTR\<close>, the reading of \<open>clock_gettime\<close>, and
  the return value of \<open>v4l2_read\<close>.
\<close>

record capture_world =
  sel :: int
  sel_errno_EINTR :: bool
  clock_reading :: timespec
  readlen :: int

text \<open>
  One step of the capture thread, from one program point to the next.  The two
  \<open>lock()\<close> calls wait while the mutex is locked.  At \<open>AtClaim\<close> the thread locks the
  mutex and inspects \<open>sortedBuffers.back()\<close>; on \<open>readerCount > 0\<close> the source
  executes \<open>continue\<close>, which leads to the loop test with the mutex as it is; otherwise
  the entry is popped and the mutex unlocked.
\<close>

definition captureThread_step :: "capture_world \<Rightarrow> CaptureDevice \<Rightarrow> fault + CaptureDevice" where
  "captureThread_step w s =
     (case m_captureThread s of
        None \<Rightarrow> Inr s
      | Some Finished \<Rightarrow> Inr s
      | Some AtLoopHead \<Rightarrow>
          (if m_captureThreadCancellationFlag s
           then Inr (s\<lparr>m_captureThread := Some Finished\<rparr>)
           else Inr (s\<lparr>m_captureThread := Some AtSelect\<rparr>))
      | Some AtSelect \<Rightarrow>
          (if sel w = - 1 \<and> \<not> sel_errno_EINTR w then Inl Aborted
           else if sel w = 0 then Inl AssertFailed
           else Inr (s\<lparr>m_captureThread := Some AtClaim\<rparr>))
      | Some AtClaim \<Rightarrow>
          (if m_timelySortedBuffersMutex s then Inl Blocked
           else if m_timelySortedBuffers s = [] then Inl UndefinedBehaviour
           else
             (case heap s (last (m_timelySortedBuffers s)) of
                None \<Rightarrow> Inl UndefinedBehaviour
              | Some b \<Rightarrow>
                  (if readerCount b > 0
                   then Inr (s\<lparr>m_timelySortedBuffersMutex := True,
                                m_captureThread := Some AtLoopHead\<rparr>)
                   else Inr (s\<lparr>m_timelySortedBuffers := butlast (m_timelySortedBuffers s),
                                m_timelySortedBuffersMutex := False,
                                m_captureThread := Some (AtRead (last (m_timelySortedBuffers s)))\<rparr>))))
      | Some (AtRead p) \<Rightarrow>
          (case heap s p of
             None \<Rightarrow> Inl UndefinedBehaviour
           | Some b \<Rightarrow>
               (if readlen w = - 1 then Inl AssertFailed
                else Inr (s\<lparr>heap := (heap s)(p \<mapsto> b\<lparr>time := clock_reading w\<rparr>),
                             m_captureThread := Some (AtPublish p)\<rparr>)))
      | Some (AtPublish p) \<Rightarrow>
          (if m_timelySortedBuffersMutex s then Inl Blocked
           else Inr (s\<lparr>m_timelySortedBuffers := p # m_timelySortedBuffers s,
                        m_captureThread := Some AtLoopHead\<rparr>)))"

text \<open>The buffer the capture thread has popped and not yet pushed back.\<close>

fun claimed :: "capture_pc option \<Rightarrow> addr list" where
  "claimed (Some (AtRead p)) = [p]"
| "claimed (Some (AtPublish p)) = [p]"
| "claimed _ = []"

text \<open>How many steps separate a program point from the next loop test.\<close>

fun pc_rank :: "capture_pc option \<Rightarrow> nat" where
  "pc_rank (Some AtSelect) = 4"
| "pc_rank (Some AtClaim) = 3"
| "pc_rank (Some (AtRead p)) = 2"
| "pc_rank (Some (AtPublish p)) = 1"
| "pc_rank _ = 0"

text \<open>
  \<open>m_captureThread->join()\<close>: the caller waits until the thread function has
  returned.  The thread completes the iteration it is in and returns at the next loop
  test that sees the cancellation flag; while the flag is unset the loop goes on and the
  join does not return.
\<close>

function captureThread_join :: "capture_world \<Rightarrow> CaptureDevice \<Rightarrow> fault + CaptureDevice" where
  "captureThread_join w s =
     (if m_captureThread s = None \<or> m_captureThread s = Some Finished then Inr s
      else if m_captureThread s = Some AtLoopHead then
        (if m_captureThreadCancellationFlag s
         then Inr (s\<lparr>m_captureThread := Some Finished\<rparr>)
         else Inl Blocked)
      else
        (case captureThread_step w s of
           Inl e \<Rightarrow> Inl e
         | Inr s' \<Rightarrow> captureThread_join w s'))"
  by pat_completeness auto
termination
proof (relation "measure (\<lambda>(w, s). pc_rank (m_captureThread s))")
  show "wf (measure (\<lambda>(w, s). pc_rank (m_captureThread s)))" by simp
next
  fix w s s'
  assume a: "\<not> (m_captureThread s = None \<or> m_captureThread s = Some Finished)"
    and b: "m_captureThread s \<noteq> Some AtLoopHead"
    and c: "captureThread_step w s = Inr s'"
  from a b have "0 < pc_rank (m_captureThread s)"
    by (cases "m_captureThread s" rule: pc_rank.cases) auto
  with c have "pc_rank (m_captureThread s') < pc_rank (m_captureThread s)"
    by (auto simp: captureThread_step_def split: option.splits capture_pc.splits if_splits)
  then show "((w, s'), (w, s)) \<in> measure (\<lambda>(w, s). pc_rank (m_captureThread s))"
    by simp
qed

declare captureThread_join.simps [simp del]

definition startCapturing :: "CaptureDevice \<Rightarrow> fault + CaptureDevice" where
  "startCapturing s =
     (if m_captureThread s \<noteq> None then Inl AssertFailed
      else Inr (s\<lparr>m_captureThread := Some AtLoopHead\<rparr>))"

definition stopCapturing :: "capture_world \<Rightarrow> CaptureDevice \<Rightarrow> fault + CaptureDevice" where
  "stopCapturing w s =
     (if m_captureThread s \<noteq> None then
        and_then (captureThread_join w (s\<lparr>m_captureThreadCancellationFlag := True\<rparr>))
          (\<lambda>s1. Inr (s1\<lparr>m_captureThreadCancellationFlag := False, m_captureThread := None\<rparr>))
      else Inr s)"

section \<open>Lifecycle: \<open>finish\<close> and \<open>init\<close>\<close>

text \<open>The loop of \<open>finish\<close> over \<open>m_buffers\<close>: assert, \<open>free\<close>, null the pointer.\<close>

fun free_buffers :: "addr list \<Rightarrow> (addr \<rightharpoonup> Buffer) \<Rightarrow> fault + (addr \<rightharpoonup> Buffer)" where
  "free_buffers [] h = Inr h"
| "free_buffers (a # as) h =
     (case h a of
        None \<Rightarrow> Inl UndefinedBehaviour
      | Some b \<Rightarrow>
          (if buffer b = None then Inl AssertFailed
           else free_buffers as (h(a \<mapsto> b\<lparr>buffer := None\<rparr>))))"

text \<open>
  \<open>finish\<close>.  \<open>m_buffers.clear()\<close> destroys the \<open>Buffer\<close> objects, so their addresses
  leave the heap; \<open>m_timelySortedBuffers\<close> is not mentioned by the function.
\<close>

definition finish :: "capture_world \<Rightarrow> CaptureDevice \<Rightarrow> fault + CaptureDevice" where
  "finish w s =
     and_then (if m_captureThread s \<noteq> None then stopCapturing w s else Inr s) (\<lambda>s1.
     and_then (Inr (if m_fileDescriptor s1 \<noteq> - 1 then s1\<lparr>m_fileDescriptor := - 1\<rparr> else s1)) (\<lambda>s2.
     and_then
       (if m_buffers s2 \<noteq> [] then
          and_then (free_buffers (m_buffers s2) (heap s2)) (\<lambda>h.
            Inr (s2\<lparr>heap := h |` (- set (m_buffers s2)), m_buffers := []\<rparr>))
        else Inr s2) (\<lambda>s3.
     Inr (s3\<lparr>m_bufferSize := 0\<rparr>))))"

text \<open>
  \<open>struct v4l2_pix_format\<close> of \<open>linux/videodev2.h\<close>, restricted to the members
  \<open>init\<close> reads or writes, and the constants of that header \<open>init\<close> uses.
\<close>

record v4l2_pix_format =
  width :: u32
  height :: u32
  pixelformat :: u32
  field :: u32
  bytesperline :: u32
  sizeimage :: u32

definition V4L2_FIELD_NONE :: u32 where
  "V4L2_FIELD_NONE = 1"

definition V4L2_CAP_VIDEO_CAPTURE :: u32 where
  "V4L2_CAP_VIDEO_CAPTURE = 0x00000001"

definition V4L2_CAP_READWRITE :: u32 where
  "V4L2_CAP_READWRITE = 0x01000000"

text \<open>\<open>numeric_limits<time_t>::min()\<close> for a 64-bit \<open>time_t\<close>.\<close>

definition time_t_min :: int where
  "time_t_min = - (2 ^ 63)"

text \<open>
  What the environment hands to \<open>init\<close>: the results of \<open>clock_gettime\<close>,
  \<open>clock_getres\<close>, \<open>gettimeofday\<close>, \<open>stat\<close>, \<open>v4l2_open\<close>, of the
  \<open>VIDIOC_QUERYCAP\<close> and \<open>VIDIOC_S_FMT\<close> requests (the latter maps the requested
  format to a return value and the format the driver writes back), the address of the
  node that the \<open>a\<close>-th \<open>push_front\<close> creates, and whether the \<open>a\<close>-th \<open>malloc\<close>
  returns null.
\<close>

record init_world =
  clockret :: int
  clock_errno_EINVAL :: bool
  timer_start :: timespec
  timer_resolution :: timespec
  real_start_time :: timespec
  stat_ret :: int
  st_mode_is_chr :: bool
  open_ret :: int
  querycap_ret :: int
  capabilities :: u32
  s_fmt :: "v4l2_pix_format \<Rightarrow> int \<times> v4l2_pix_format"
  node_addr :: "nat \<Rightarrow> addr"
  malloc_null :: "nat \<Rightarrow> bool"

text \<open>
  The block under \<open>/* Buggy driver paranoia. */\<close>: unsigned 32-bit arithmetic, as
  \<open>unsigned int min\<close> and the \<open>__u32\<close> members have it.
\<close>

definition buggy_driver_paranoia :: "v4l2_pix_format \<Rightarrow> v4l2_pix_format" where
  "buggy_driver_paranoia fmt =
     (let min1 = width fmt * 2;
          fmt1 = (if bytesperline fmt < min1 then fmt\<lparr>bytesperline := min1\<rparr> else fmt);
          min2 = bytesperline fmt1 * height fmt1
      in (if sizeimage fmt1 < min2 then fmt1\<lparr>sizeimage := min2\<rparr> else fmt1))"

text \<open>The allocation loop of \<open>init\<close>.\<close>

function init_allocate :: "init_world \<Rightarrow> nat \<Rightarrow> nat \<Rightarrow> CaptureDevice \<Rightarrow> fault + CaptureDevice" where
  "init_allocate iw a buffersCount s =
     (if a < buffersCount then
        (if malloc_null iw a then Inl AssertFailed
         else
           init_allocate iw (a + 1) buffersCount
             (s\<lparr>m_buffers := node_addr iw a # m_buffers s,
                heap := (heap s)(node_addr iw a \<mapsto>
                  \<lparr>time = \<lparr>tv_sec = time_t_min, tv_nsec = 0\<rparr>,
                   readerCount = 0,
                   buffer = Some (unat (m_bufferSize s))\<rparr>),
                m_timelySortedBuffers := m_timelySortedBuffers s @ [node_addr iw a]\<rparr>))
      else Inr s)"
  by pat_completeness auto
termination
  by (relation "measure (\<lambda>(iw, a, buffersCount, s). buffersCount - a)") auto

declare init_allocate.simps [simp del]

text \<open>\<open>finish(); return false;\<close>\<close>

definition init_fail :: "capture_world \<Rightarrow> CaptureDevice \<Rightarrow> fault + (bool \<times> CaptureDevice)" where
  "init_fail w s = and_then (finish w s) (\<lambda>s'. Inr (False, s'))"

definition init ::
  "init_world \<Rightarrow> capture_world \<Rightarrow> string \<Rightarrow> u32 \<Rightarrow> u32 \<Rightarrow> u32 \<Rightarrow> nat \<Rightarrow> int \<Rightarrow> u32 \<Rightarrow>
   CaptureDevice \<Rightarrow> fault + (bool \<times> CaptureDevice)"
where
  "init iw w deviceFileName pixelFormat captureWidth captureHeight buffersCount clockId
     readTimeOut s =
     (if m_fileDescriptor s \<noteq> - 1 then Inl AssertFailed
      else if \<not> buffersCount > 1 then Inl AssertFailed
      else
        (let s1 = s\<lparr>m_captureHeight := captureHeight,
                     m_captureWidth := captureWidth,
                     m_deviceFileName := deviceFileName,
                     m_fieldFormat := V4L2_FIELD_NONE,
                     m_pixelFormat := pixelFormat,
                     m_readTimeOut := readTimeOut,
                     m_timerClockId := clockId,
                     m_captureThreadCancellationFlag := False,
                     m_timerStart := timer_start iw,
                     m_timerResolution := timer_resolution iw,
                     m_realStartTime := real_start_time iw\<rparr>
         in
           if clockret iw = - 1 then
             (if clock_errno_EINVAL iw then init_fail w s1 else Inl AssertFailed)
           else if stat_ret iw = - 1 then init_fail w s1
           else if \<not> st_mode_is_chr iw then init_fail w s1
           else
             (let s2 = s1\<lparr>m_fileDescriptor := open_ret iw\<rparr>
              in
                if m_fileDescriptor s2 = - 1 then init_fail w s2
                else if querycap_ret iw = - 1 then init_fail w s2
                else if and (capabilities iw) V4L2_CAP_VIDEO_CAPTURE = 0 then init_fail w s2
                else if and (capabilities iw) V4L2_CAP_READWRITE = 0 then init_fail w s2
                else
                  (case s_fmt iw \<lparr>width = m_captureWidth s2, height = m_captureHeight s2,
                                   pixelformat = m_pixelFormat s2, field = m_fieldFormat s2,
                                   bytesperline = 0, sizeimage = 0\<rparr> of
                     (r, fmt) \<Rightarrow>
                       if r = - 1 then init_fail w s2
                       else
                         (let s3 =
                                (if width fmt \<noteq> m_captureWidth s2 \<or>
                                    height fmt \<noteq> m_captureHeight s2 \<or>
                                    pixelformat fmt \<noteq> m_pixelFormat s2 \<or>
                                    field fmt \<noteq> m_fieldFormat s2
                                 then s2\<lparr>m_captureWidth := width fmt,
                                         m_captureHeight := height fmt,
                                         m_pixelFormat := pixelformat fmt,
                                         m_fieldFormat := field fmt\<rparr>
                                 else s2);
                              s4 = s3\<lparr>m_bufferSize := sizeimage (buggy_driver_paranoia fmt)\<rparr>
                          in and_then (init_allocate iw 0 buffersCount s4)
                               (\<lambda>s5. Inr (True, s5)))))))"

text \<open>The format \<open>init\<close> hands to \<open>VIDIOC_S_FMT\<close>, in terms of its arguments.\<close>

definition requested_format :: "u32 \<Rightarrow> u32 \<Rightarrow> u32 \<Rightarrow> v4l2_pix_format" where
  "requested_format pixelFormat captureWidth captureHeight =
     \<lparr>width = captureWidth, height = captureHeight, pixelformat = pixelFormat,
      field = V4L2_FIELD_NONE, bytesperline = 0, sizeimage = 0\<rparr>"

text \<open>The \<open>Buffer\<close> the allocation loop creates for a buffer size.\<close>

definition init_buffer :: "u32 \<Rightarrow> Buffer" where
  "init_buffer sz = \<lparr>time = \<lparr>tv_sec = time_t_min, tv_nsec = 0\<rparr>, readerCount = 0,
      buffer = Some (unat sz)\<rparr>"

text \<open>
  The object the constructor leaves: no descriptor, no thread, empty containers, an
  unlocked mutex; the other members are not initialised and may hold anything.
\<close>

definition constructed :: "CaptureDevice \<Rightarrow> bool" where
  "constructed s \<longleftrightarrow>
     m_fileDescriptor s = - 1 \<and> m_captureThread s = None \<and>
     m_buffers s = [] \<and> m_timelySortedBuffers s = [] \<and>
     \<not> m_timelySortedBuffersMutex s \<and> heap s = Map.empty"

section \<open>The period estimator\<close>

text \<open>
  The part of \<open>determineCapturePeriodThread\<close> after the sampling loop, as a function
  of the vector \<open>times\<close> the loop has filled (here \<open>stamps\<close>; it always holds at least one element).
  \<open>double\<close> is modelled by the reals; where the source divides zero by zero (no
  interval), the result is not a number and the model returns \<open>None\<close>.
\<close>

definition seconds :: "timespec \<Rightarrow> real" where
  "seconds t = real_of_int (tv_sec t) + real_of_int (tv_nsec t) / 1000000000"

fun intervals_of :: "timespec list \<Rightarrow> real list" where
  "intervals_of (a # b # ts) = (seconds b - seconds a) # intervals_of (b # ts)"
| "intervals_of _ = []"

definition determineCapturePeriodThread :: "timespec list \<Rightarrow> (real \<times> real) option" where
  "determineCapturePeriodThread stamps =
     (let intervals = intervals_of stamps in
      if intervals = [] then None
      else
        (let mean = fold (\<lambda>a mean. mean + a) intervals 0 / real (length intervals);
             addedSquares = fold (\<lambda>a addedSquares. (a - mean) * (a - mean)) intervals 0;
             standardDeviation = sqrt (addedSquares / real (length intervals))
         in Some (mean, standardDeviation)))"

text \<open>
  The reading of the specification: the mean of the intervals and the square root of the
  mean squared deviation from it.
\<close>

definition sample_mean :: "real list \<Rightarrow> real" where
  "sample_mean xs = sum_list xs / real (length xs)"

definition sample_stddev :: "real list \<Rightarrow> real" where
  "sample_stddev xs =
     sqrt (sum_list (map (\<lambda>x. (x - sample_mean xs) ^ 2) xs) / real (length xs))"

section \<open>Runs of an initialised session\<close>

text \<open>
  The states an initialised session passes through while caller threads borrow, release
  and count and the capture thread runs.  Each pool operation holds the mutex for its
  whole body and is one step; the capture thread moves one program point at a time.  A
  run starts with a successful \<open>init\<close> on a newly constructed object; the nodes that
  \<open>init\<close> creates are alive together, so their addresses differ.  The second component
  records the references handed out by \<open>lockFirstNBuffers\<close> and not yet given back:
  callers release only what they hold.
\<close>

inductive pool_run :: "nat \<Rightarrow> CaptureDevice \<Rightarrow> CaptureDevice \<times> addr multiset \<Rightarrow> bool"
  for buffersCount :: nat and s0 :: CaptureDevice
where
  after_init:
    "constructed c \<Longrightarrow> inj_on (node_addr iw) {..<buffersCount} \<Longrightarrow>
     init iw w deviceFileName pixelFormat captureWidth captureHeight buffersCount clockId
       readTimeOut c = Inr (True, s0) \<Longrightarrow>
     pool_run buffersCount s0 (s0, {#})"
| start:
    "pool_run buffersCount s0 (s, H) \<Longrightarrow> startCapturing s = Inr s' \<Longrightarrow>
     pool_run buffersCount s0 (s', H)"
| capture:
    "pool_run buffersCount s0 (s, H) \<Longrightarrow> captureThread_step w s = Inr s' \<Longrightarrow>
     pool_run buffersCount s0 (s', H)"
| borrow:
    "pool_run buffersCount s0 (s, H) \<Longrightarrow> lockFirstNBuffers n s = Inr (refs, s') \<Longrightarrow>
     pool_run buffersCount s0 (s', H + mset refs)"
| release:
    "pool_run buffersCount s0 (s, H) \<Longrightarrow> mset refs \<subseteq># H \<Longrightarrow> unlock refs s = Inr s' \<Longrightarrow>
     pool_run buffersCount s0 (s', H - mset refs)"
| count:
    "pool_run buffersCount s0 (s, H) \<Longrightarrow> newerBuffersAvailable newerThan s = Inr k \<Longrightarrow>
     pool_run buffersCount s0 (s, H)"

text \<open>
  The same steps without the record of outstanding references and with no condition on
  what is released: every interleaving of the pool operations and the capture thread.
\<close>

inductive pool_steps :: "nat \<Rightarrow> CaptureDevice \<Rightarrow> CaptureDevice \<Rightarrow> bool"
  for buffersCount :: nat and s0 :: CaptureDevice
where
  initialised:
    "constructed c \<Longrightarrow> inj_on (node_addr iw) {..<buffersCount} \<Longrightarrow>
     init iw w deviceFileName pixelFormat captureWidth captureHeight buffersCount clockId
       readTimeOut c = Inr (True, s0) \<Longrightarrow>
     pool_steps buffersCount s0 s0"
| started:
    "pool_steps buffersCount s0 s \<Longrightarrow> startCapturing s = Inr s' \<Longrightarrow>
     pool_steps buffersCount s0 s'"
| captured:
    "pool_steps buffersCount s0 s \<Longrightarrow> captureThread_step w s = Inr s' \<Longrightarrow>
     pool_steps buffersCount s0 s'"
| borrowed:
    "pool_steps buffersCount s0 s \<Longrightarrow> lockFirstNBuffers n s = Inr (refs, s') \<Longrightarrow>
     pool_steps buffersCount s0 s'"
| released:
    "pool_steps buffersCount s0 s \<Longrightarrow> unlock refs s = Inr s' \<Longrightarrow>
     pool_steps buffersCount s0 s'"
| counted:
    "pool_steps buffersCount s0 s \<Longrightarrow> newerBuffersAvailable newerThan s = Inr k \<Longrightarrow>
     pool_steps buffersCount s0 s"

text \<open>
  The outcome of the loops of \<open>unlock\<close> in closed form, for an ordering without
  duplicates: the release goes through when no pointer of the ordering is released more
  often than its count allows, and then lowers each released pointer of the ordering by
  the number of times it is released.
\<close>

definition released :: "addr list \<Rightarrow> addr list \<Rightarrow> (addr \<rightharpoonup> Buffer) \<Rightarrow> (addr \<rightharpoonup> Buffer)" where
  "released refs xs h =
     (\<lambda>p. if p \<in> set refs \<and> p \<in> set xs
          then map_option (\<lambda>b. b\<lparr>readerCount := readerCount b - int (count (mset refs) p)\<rparr>) (h p)
          else h p)"

definition releasable :: "addr list \<Rightarrow> addr list \<Rightarrow> (addr \<rightharpoonup> Buffer) \<Rightarrow> bool" where
  "releasable refs xs h \<longleftrightarrow>
     (\<forall>p \<in> set refs. p \<in> set xs \<longrightarrow> int (count (mset refs) p) \<le> readerCount (the (h p)))"

text \<open>
  What holds in every state of a run that started in \<open>s0\<close>: the ordering together with
  the buffer the capture thread has claimed lists the buffers of \<open>s0\<close>, each once; these
  are the live \<open>Buffer\<close> objects; each reader count is the number of references
  handed out and not yet given back; and only buffers of the ordering are referenced.
\<close>

definition pool_inv :: "CaptureDevice \<Rightarrow> CaptureDevice \<Rightarrow> addr multiset \<Rightarrow> bool" where
  "pool_inv s0 s H \<longleftrightarrow>
     distinct (m_timelySortedBuffers s @ claimed (m_captureThread s)) \<and>
     mset (m_timelySortedBuffers s @ claimed (m_captureThread s)) = mset (m_timelySortedBuffers s0) \<and>
     (\<forall>p. p \<in> set (m_timelySortedBuffers s @ claimed (m_captureThread s)) \<longleftrightarrow>
          heap s p \<noteq> None) \<and>
     (\<forall>p b. heap s p = Some b \<longrightarrow> readerCount b = int (count H p)) \<and>
     set_mset H \<subseteq> set (m_timelySortedBuffers s)"

section \<open>Example sessions\<close>

text \<open>
  A constructed object (with zeros in the members the constructor leaves alone), and a
  session of three buffers of 202752 bytes after three captured frames: the newest frame
  is in buffer 0, the oldest in buffer 2.
\<close>

definition example_object :: CaptureDevice where
  "example_object =
     \<lparr>m_fileDescriptor = - 1, m_captureThread = None,
      m_captureThreadCancellationFlag = False, m_deviceFileName = [],
      m_captureWidth = 0, m_captureHeight = 0, m_pixelFormat = 0, m_fieldFormat = 0,
      m_bufferSize = 0, m_readTimeOut = 0, m_timerClockId = 0,
      m_timerStart = \<lparr>tv_sec = 0, tv_nsec = 0\<rparr>,
      m_timerResolution = \<lparr>tv_sec = 0, tv_nsec = 0\<rparr>,
      m_realStartTime = \<lparr>tv_sec = 0, tv_nsec = 0\<rparr>,
      m_buffers = [], m_timelySortedBuffers = [],
      m_timelySortedBuffersMutex = False, heap = Map.empty\<rparr>"

definition example_buffer :: "timespec \<Rightarrow> int \<Rightarrow> Buffer" where
  "example_buffer t r = \<lparr>time = t, readerCount = r, buffer = Some 202752\<rparr>"

definition t1 :: timespec where "t1 = \<lparr>tv_sec = 1, tv_nsec = 0\<rparr>"
definition t2 :: timespec where "t2 = \<lparr>tv_sec = 1, tv_nsec = 500\<rparr>"
definition t3 :: timespec where "t3 = \<lparr>tv_sec = 2, tv_nsec = 0\<rparr>"

definition example_pool3 :: CaptureDevice where
  "example_pool3 =
     example_object
       \<lparr>m_fileDescriptor := 3, m_captureThread := Some AtLoopHead,
        m_captureWidth := 352, m_captureHeight := 288, m_bufferSize := 202752,
        m_buffers := [2, 1, 0], m_timelySortedBuffers := [0, 1, 2],
        heap := [0 \<mapsto> example_buffer t3 0, 1 \<mapsto> example_buffer t2 0,
                 2 \<mapsto> example_buffer t1 0]\<rparr>"

text \<open>
  A device that answers a 640x480 request with 352x288 and reports a line stride and an
  image size that are too small; the frames it delivers; and the session \<open>init\<close>
  builds on it with two buffers.
\<close>

definition example_device :: init_world where
  "example_device =
     \<lparr>clockret = 0, clock_errno_EINVAL = False,
      timer_start = \<lparr>tv_sec = 100, tv_nsec = 0\<rparr>,
      timer_resolution = \<lparr>tv_sec = 0, tv_nsec = 1\<rparr>,
      real_start_time = \<lparr>tv_sec = 1000, tv_nsec = 0\<rparr>,
      stat_ret = 0, st_mode_is_chr = True, open_ret = 3, querycap_ret = 0,
      capabilities = 0x01000001,
      s_fmt = (\<lambda>req. (0, req\<lparr>width := 352, height := 288, bytesperline := 352, sizeimage := 0\<rparr>)),
      node_addr = (\<lambda>a. a), malloc_null = (\<lambda>a. False)\<rparr>"

definition example_frame :: "timespec \<Rightarrow> capture_world" where
  "example_frame t = \<lparr>sel = 1, sel_errno_EINTR = False, clock_reading = t, readlen = 202752\<rparr>"

definition t0 :: timespec where "t0 = \<lparr>tv_sec = time_t_min, tv_nsec = 0\<rparr>"

definition example_session :: CaptureDevice where
  "example_session =
     \<lparr>m_fileDescriptor = 3, m_captureThread = None,
      m_captureThreadCancellationFlag = False, m_deviceFileName = ''/dev/video0'',
      m_captureWidth = 352, m_captureHeight = 288, m_pixelFormat = 0x56595559,
      m_fieldFormat = 1, m_bufferSize = 202752, m_readTimeOut = 2, m_timerClockId = 1,
      m_timerStart = \<lparr>tv_sec = 100, tv_nsec = 0\<rparr>,
      m_timerResolution = \<lparr>tv_sec = 0, tv_nsec = 1\<rparr>,
      m_realStartTime = \<lparr>tv_sec = 1000, tv_nsec = 0\<rparr>,
      m_buffers = [1, 0], m_timelySortedBuffers = [0, 1],
      m_timelySortedBuffersMutex = False,
      heap = [0 \<mapsto> example_buffer t0 0, 1 \<mapsto> example_buffer t0 0]\<rparr>"


text \<open>Four sample instants, 1, 3 and 2 seconds apart.\<close>

definition example_stamps :: "timespec list" where
  "example_stamps = [\<lparr>tv_sec = 0, tv_nsec = 0\<rparr>, \<lparr>tv_sec = 1, tv_nsec = 0\<rparr>,
                     \<lparr>tv_sec = 4, tv_nsec = 0\<rparr>, \<lparr>tv_sec = 6, tv_nsec = 0\<rparr>]"

text \<open>
  Two states of the two-buffer session: the capture thread has claimed buffer 1 and is
  about to read into it; and a caller has borrowed the newest buffer.
\<close>

definition example_filling :: CaptureDevice where
  "example_filling =
     example_session\<lparr>m_timelySortedBuffers := [0], m_captureThread := Some (AtRead 1)\<rparr>"

definition example_borrowed :: CaptureDevice where
  "example_borrowed =
     example_session\<lparr>heap := (heap example_session)(0 \<mapsto> example_buffer t0 1)\<rparr>"

text \<open>
  The two-buffer session with its capture thread started; the session after \<open>finish\<close>;
  and the session a second \<open>init\<close> builds on the finished one, when the allocator hands
  out the two addresses again.
\<close>

definition example_running :: CaptureDevice where
  "example_running = example_session\<lparr>m_captureThread := Some AtLoopHead\<rparr>"

definition example_finished :: CaptureDevice where
  "example_finished =
     example_session\<lparr>m_fileDescriptor := - 1, heap := Map.empty, m_buffers := [],
       m_bufferSize := 0\<rparr>"

definition example_reinitialised :: CaptureDevice where
  "example_reinitialised =
     example_session\<lparr>m_timelySortedBuffers := [0, 1, 0, 1]\<rparr>"

text \<open>
  The two-buffer session with its capture thread waiting in \<open>select\<close>; the session
  \<open>finish\<close> leaves when it is called then; and the session a second \<open>init\<close> builds on
  that one.
\<close>

definition example_selecting :: CaptureDevice where
  "example_selecting = example_session\<lparr>m_captureThread := Some AtSelect\<rparr>"

definition example_finished_late :: CaptureDevice where
  "example_finished_late = example_finished\<lparr>m_timelySortedBuffers := [1, 0]\<rparr>"

definition example_reinitialised_late :: CaptureDevice where
  "example_reinitialised_late = example_session\<lparr>m_timelySortedBuffers := [1, 0, 0, 1]\<rparr>"

text \<open>
  A caller holds both buffers of the two-buffer session while the capture thread arrives
  at its claim; and the state the thread leaves the claim in.
\<close>

definition example_held :: CaptureDevice where
  "example_held =
     example_session
       \<lparr>heap := [0 \<mapsto> example_buffer t0 1, 1 \<mapsto> example_buffer t0 1],
        m_captureThread := Some AtClaim\<rparr>"

definition example_stuck :: CaptureDevice where
  "example_stuck =
     example_held\<lparr>m_timelySortedBuffersMutex := True, m_captureThread := Some AtLoopHead\<rparr>"

text \<open>
  The two-buffer session in its second capture iteration: buffer 1 has been refilled
  and published, buffer 0 is claimed and about to be read into.
\<close>

definition example_second_claim :: CaptureDevice where
  "example_second_claim =
     example_session
       \<lparr>heap := [0 \<mapsto> example_buffer t0 0, 1 \<mapsto> example_buffer t1 0],
        m_timelySortedBuffers := [1], m_captureThread := Some (AtRead 0)\<rparr>"

section \<open>Counting newer buffers\<close>

lemma not_newer_iff: "not_newer t newerThan \<longleftrightarrow> \<not> ts_less newerThan t"
  by (auto simp: not_newer_def ts_less_def)

lemma ts_le_iff: "ts_le t newerThan \<longleftrightarrow> \<not> ts_less newerThan t"
  by (auto simp: ts_le_def ts_less_def)

lemma ts_le_less_trans: "ts_le a b \<Longrightarrow> ts_less b c \<Longrightarrow> ts_less a c"
  by (auto simp: ts_le_def ts_less_def)

lemma newerBuffersAvailable_loop_takeWhile:
  "\<forall>p \<in> set xs. h p \<noteq> None \<Longrightarrow>
   newerBuffersAvailable_loop newerThan xs h ret =
     Inr (ret + length (takeWhile (\<lambda>p. ts_less newerThan (time_at h p)) xs))"
  by (induction xs arbitrary: ret) (auto simp: not_newer_iff time_at_def)

lemma takeWhile_length_mono:
  "(\<And>x. x \<in> set xs \<Longrightarrow> P x \<Longrightarrow> Q x) \<Longrightarrow>
   length (takeWhile P xs) \<le> length (takeWhile Q xs)"
  by (induction xs) auto

lemma takeWhile_stops:
  "length (takeWhile P xs) < length xs \<Longrightarrow> \<not> P (xs ! length (takeWhile P xs))"
  by (induction xs) (auto split: if_splits)

lemma pool_ok_example_pool3: "pool_ok example_pool3"
  by (simp add: pool_ok_def example_pool3_def example_object_def)

text \<open>
  Claim C8.  In a pool whose lock is free and whose ordering lists live buffers,
  \<open>newerBuffersAvailable\<close> returns the length of the longest prefix of the ordering
  (from the front) all of whose timestamps are strictly greater than the threshold in
  the lexicographic order on (seconds, nanoseconds): every entry of that prefix is
  newer, and the entry after it, if there is one, is older than or equal to the
  threshold; whatever follows is not counted.
\<close>

theorem newerBuffersAvailable_longest_newer_prefix:
  assumes "pool_ok s"
  shows "\<exists>k. newerBuffersAvailable newerThan s = Inr k \<and>
           k = length (takeWhile (\<lambda>p. ts_less newerThan (time_at (heap s) p))
                 (m_timelySortedBuffers s)) \<and>
           k \<le> length (m_timelySortedBuffers s) \<and>
           (\<forall>i < k. ts_less newerThan (time_at (heap s) (m_timelySortedBuffers s ! i))) \<and>
           (k < length (m_timelySortedBuffers s) \<longrightarrow>
              ts_le (time_at (heap s) (m_timelySortedBuffers s ! k)) newerThan)"
proof -
  let ?P = "\<lambda>p. ts_less newerThan (time_at (heap s) p)"
  let ?xs = "m_timelySortedBuffers s"
  let ?k = "length (takeWhile ?P ?xs)"
  have ret: "newerBuffersAvailable newerThan s = Inr ?k"
    using assms
    by (simp add: newerBuffersAvailable_def pool_ok_def newerBuffersAvailable_loop_takeWhile)
  have le: "?k \<le> length ?xs"
    by (rule length_takeWhile_le)
  have newer: "\<forall>i < ?k. ?P (?xs ! i)"
  proof (intro allI impI)
    fix i assume i: "i < ?k"
    then have "takeWhile ?P ?xs ! i = ?xs ! i"
      by (rule takeWhile_nth)
    moreover have "takeWhile ?P ?xs ! i \<in> set (takeWhile ?P ?xs)"
      using i by simp
    ultimately show "?P (?xs ! i)"
      by (metis set_takeWhileD)
  qed
  have stop: "?k < length ?xs \<longrightarrow> ts_le (time_at (heap s) (?xs ! ?k)) newerThan"
    using takeWhile_stops [of ?P ?xs] by (simp add: ts_le_iff)
  from ret le newer stop show ?thesis by blast
qed

theorem newerBuffersAvailable_longest_newer_prefix_witness:
  "pool_ok example_pool3 \<and> newerBuffersAvailable t1 example_pool3 = Inr 2"
proof -
  from newerBuffersAvailable_longest_newer_prefix [OF pool_ok_example_pool3, of t1]
  obtain k where k: "newerBuffersAvailable t1 example_pool3 = Inr k"
    and len: "k = length (takeWhile (\<lambda>p. ts_less t1 (time_at (heap example_pool3) p))
                 (m_timelySortedBuffers example_pool3))"
    by blast
  have "length (takeWhile (\<lambda>p. ts_less t1 (time_at (heap example_pool3) p))
          (m_timelySortedBuffers example_pool3)) = 2"
    by (simp add: example_pool3_def example_object_def example_buffer_def time_at_def
        ts_less_def t1_def t2_def t3_def)
  with k len show ?thesis
    by (simp add: pool_ok_example_pool3)
qed

text \<open>
  Claim C9.  For a fixed pool state and thresholds \<open>T1\<close>, \<open>T2\<close> with \<open>T1\<close> at most
  \<open>T2\<close> (lexicographically), both counts are returned and the count for \<open>T2\<close> is at
  most the count for \<open>T1\<close>.
\<close>

theorem newerBuffersAvailable_antimono:
  assumes "pool_ok s" and "ts_le T1 T2"
  shows "\<exists>k1 k2. newerBuffersAvailable T1 s = Inr k1 \<and>
           newerBuffersAvailable T2 s = Inr k2 \<and> k2 \<le> k1"
proof -
  let ?xs = "m_timelySortedBuffers s"
  have "length (takeWhile (\<lambda>p. ts_less T2 (time_at (heap s) p)) ?xs)
        \<le> length (takeWhile (\<lambda>p. ts_less T1 (time_at (heap s) p)) ?xs)"
    by (rule takeWhile_length_mono) (rule ts_le_less_trans [OF assms(2)])
  with assms(1) show ?thesis
    by (simp add: newerBuffersAvailable_def pool_ok_def newerBuffersAvailable_loop_takeWhile)
qed

theorem newerBuffersAvailable_antimono_witness:
  "pool_ok example_pool3 \<and> ts_le t1 t2 \<and>
   newerBuffersAvailable t1 example_pool3 = Inr 2 \<and>
   newerBuffersAvailable t2 example_pool3 = Inr 1"
proof -
  have le: "ts_le t1 t2"
    by (simp add: ts_le_def t1_def t2_def)
  have c1: "newerBuffersAvailable t1 example_pool3 = Inr 2"
    by (simp add: newerBuffersAvailable_def example_pool3_def example_object_def
        example_buffer_def not_newer_def t1_def t2_def t3_def)
  have c2: "newerBuffersAvailable t2 example_pool3 = Inr 1"
    by (simp add: newerBuffersAvailable_def example_pool3_def example_object_def
        example_buffer_def not_newer_def t1_def t2_def t3_def)
  from newerBuffersAvailable_antimono [OF pool_ok_example_pool3 le] le c1 c2
  show ?thesis by (simp add: pool_ok_example_pool3)
qed

section \<open>The buffer size chosen by \<open>init\<close>\<close>

lemma buggy_driver_paranoia_max:
  "bytesperline (buggy_driver_paranoia fmt) = max (bytesperline fmt) (width fmt * 2)"
  "sizeimage (buggy_driver_paranoia fmt) =
     max (sizeimage fmt) (bytesperline (buggy_driver_paranoia fmt) * height fmt)"
  "width (buggy_driver_paranoia fmt) = width fmt"
  "height (buggy_driver_paranoia fmt) = height fmt"
  by (auto simp: buggy_driver_paranoia_def Let_def max_def)

lemma init_allocate_result:
  "init_allocate iw a n s = Inr s' \<Longrightarrow>
     m_bufferSize s' = m_bufferSize s \<and>
     m_buffers s' = rev (map (node_addr iw) [a..<n]) @ m_buffers s \<and>
     m_timelySortedBuffers s' = m_timelySortedBuffers s @ map (node_addr iw) [a..<n] \<and>
     (\<forall>i. a \<le> i \<and> i < n \<longrightarrow> heap s' (node_addr iw i) = Some (init_buffer (m_bufferSize s))) \<and>
     (\<forall>p. p \<notin> node_addr iw ` {a..<n} \<longrightarrow> heap s' p = heap s p) \<and>
     m_fileDescriptor s' = m_fileDescriptor s \<and>
     m_captureThread s' = m_captureThread s \<and>
     m_timelySortedBuffersMutex s' = m_timelySortedBuffersMutex s \<and>
     m_captureWidth s' = m_captureWidth s \<and>
     m_captureHeight s' = m_captureHeight s"
proof (induction iw a n s rule: init_allocate.induct)
  case (1 iw a n s)
  show ?case
  proof (cases "a < n")
    case False
    with "1.prems" show ?thesis
      by (auto simp: init_allocate.simps [of iw a n s])
  next
    case True
    let ?s1 = "s\<lparr>m_buffers := node_addr iw a # m_buffers s,
                heap := (heap s)(node_addr iw a \<mapsto>
                  \<lparr>time = \<lparr>tv_sec = time_t_min, tv_nsec = 0\<rparr>,
                   readerCount = 0,
                   buffer = Some (unat (m_bufferSize s))\<rparr>),
                m_timelySortedBuffers := m_timelySortedBuffers s @ [node_addr iw a]\<rparr>"
    from True "1.prems" have nm: "\<not> malloc_null iw a" and rec: "init_allocate iw (a + 1) n ?s1 = Inr s'"
      by (auto simp: init_allocate.simps [of iw a n s] split: if_splits)
    note IH = "1.IH" [OF True nm rec]
    from IH have IH_new:
      "\<And>i. a + 1 \<le> i \<Longrightarrow> i < n \<Longrightarrow>
         heap s' (node_addr iw i) = Some (init_buffer (m_bufferSize s))"
      by simp
    from IH have IH_old:
      "\<And>p. p \<notin> node_addr iw ` {a + 1..<n} \<Longrightarrow> heap s' p = heap ?s1 p"
      by blast
    have upt: "[a..<n] = a # [a + 1..<n]"
      using True by (simp add: upt_conv_Cons)
    have heap_new: "\<forall>i. a \<le> i \<and> i < n \<longrightarrow> heap s' (node_addr iw i) = Some (init_buffer (m_bufferSize s))"
    proof (intro allI impI)
      fix i assume i: "a \<le> i \<and> i < n"
      show "heap s' (node_addr iw i) = Some (init_buffer (m_bufferSize s))"
      proof (cases "a + 1 \<le> i")
        case True
        with i IH_new show ?thesis by simp
      next
        case False
        with i have ia: "i = a" by simp
        show ?thesis
        proof (cases "node_addr iw a \<in> node_addr iw ` {a + 1..<n}")
          case True
          then obtain j where "a + 1 \<le> j" "j < n" "node_addr iw j = node_addr iw a" by auto
          with IH_new [of j] ia show ?thesis
            by simp
        next
          case False
          then have "heap s' (node_addr iw a) = heap ?s1 (node_addr iw a)"
            by (rule IH_old)
          then show ?thesis by (simp add: ia init_buffer_def)
        qed
      qed
    qed
    have heap_old: "\<forall>p. p \<notin> node_addr iw ` {a..<n} \<longrightarrow> heap s' p = heap s p"
    proof (intro allI impI)
      fix p assume p: "p \<notin> node_addr iw ` {a..<n}"
      then have "p \<notin> node_addr iw ` {a + 1..<n}" and "p \<noteq> node_addr iw a"
        using True by auto
      with IH_old [of p] show "heap s' p = heap s p" by simp
    qed
    from IH heap_new heap_old show ?thesis
      by (simp add: upt)
  qed
qed

lemma init_success:
  assumes "init iw w deviceFileName pixelFormat captureWidth captureHeight buffersCount clockId
             readTimeOut s = Inr (True, s')"
  shows "\<exists>s4. init_allocate iw 0 buffersCount s4 = Inr s' \<and>
           m_bufferSize s4 = sizeimage (buggy_driver_paranoia
              (snd (s_fmt iw (requested_format pixelFormat captureWidth captureHeight)))) \<and>
           m_captureWidth s4 = width (snd (s_fmt iw (requested_format pixelFormat captureWidth captureHeight))) \<and>
           m_captureHeight s4 = height (snd (s_fmt iw (requested_format pixelFormat captureWidth captureHeight))) \<and>
           m_buffers s4 = m_buffers s \<and>
           m_timelySortedBuffers s4 = m_timelySortedBuffers s \<and>
           heap s4 = heap s \<and>
           m_captureThread s4 = m_captureThread s \<and>
           m_timelySortedBuffersMutex s4 = m_timelySortedBuffersMutex s \<and>
           m_fileDescriptor s4 = open_ret iw \<and> open_ret iw \<noteq> - 1 \<and>
           m_fileDescriptor s = - 1 \<and> 1 < buffersCount"
  using assms
  by (auto simp: init_def Let_def init_fail_def and_then_def requested_format_def
      split: if_splits prod.splits sum.splits)

lemma example_caps:
  "and (0x01000001 :: u32) V4L2_CAP_VIDEO_CAPTURE \<noteq> 0"
  "and (0x01000001 :: u32) V4L2_CAP_READWRITE \<noteq> 0"
  by (simp_all add: V4L2_CAP_VIDEO_CAPTURE_def V4L2_CAP_READWRITE_def)

lemma example_init:
  "init example_device (example_frame t1) ''/dev/video0'' 0x56595559 640 480 2 1 2 example_object
     = Inr (True, example_session)"
  by (simp add: init_def example_device_def example_object_def example_session_def
      V4L2_FIELD_NONE_def example_caps Let_def
      buggy_driver_paranoia_def init_allocate.simps and_then_def example_buffer_def t0_def)

lemma unat_max: "unat (max (a::u32) b) = max (unat a) (unat b)"
  by (simp add: max_def word_le_nat_alt)

lemma buggy_driver_paranoia_unat:
  assumes "2 * unat (width fmt) < 2 ^ 32"
    and "max (unat (bytesperline fmt)) (2 * unat (width fmt)) * unat (height fmt) < 2 ^ 32"
  shows "unat (bytesperline (buggy_driver_paranoia fmt)) =
           max (unat (bytesperline fmt)) (2 * unat (width fmt))"
    and "unat (sizeimage (buggy_driver_paranoia fmt)) =
           max (unat (sizeimage fmt))
             (max (unat (bytesperline fmt)) (2 * unat (width fmt)) * unat (height fmt))"
proof -
  have w2: "unat (width fmt * 2) = 2 * unat (width fmt)"
    using assms(1) by (simp add: unat_word_ariths)
  show bpl: "unat (bytesperline (buggy_driver_paranoia fmt)) =
           max (unat (bytesperline fmt)) (2 * unat (width fmt))"
    by (simp add: buggy_driver_paranoia_max unat_max w2)
  have "unat (bytesperline (buggy_driver_paranoia fmt) * height fmt) =
          unat (bytesperline (buggy_driver_paranoia fmt)) * unat (height fmt)"
    using assms(2) bpl by (simp add: unat_word_ariths)
  then show "unat (sizeimage (buggy_driver_paranoia fmt)) =
           max (unat (sizeimage fmt))
             (max (unat (bytesperline fmt)) (2 * unat (width fmt)) * unat (height fmt))"
    by (simp add: buggy_driver_paranoia_max(2) unat_max bpl)
qed

text \<open>
  Claim C10.  Let \<open>fmt\<close> be the format the driver writes back for the request of a
  successful \<open>init\<close>, with width \<open>w\<close>, height \<open>h\<close>, stride \<open>s\<close> and image size
  \<open>z\<close>.  Then the stride \<open>init\<close> goes on with is \<open>max s (2 * w)\<close> and the image size
  is \<open>max z (stride * h)\<close> for that corrected stride, in the unsigned 32-bit arithmetic
  of the source (and in plain arithmetic whenever the two products fit in 32 bits);
  the session adopts the driver's width and height, \<open>m_bufferSize\<close> is the corrected
  image size, and every buffer the call allocates has exactly that capacity: the
  caller's requested dimensions do not enter.
\<close>

theorem init_allocates_sanitised_image_size:
  assumes "init iw w deviceFileName pixelFormat captureWidth captureHeight buffersCount clockId
             readTimeOut s = Inr (True, s')"
    and "s_fmt iw (requested_format pixelFormat captureWidth captureHeight) = (r, fmt)"
  shows "bytesperline (buggy_driver_paranoia fmt) = max (bytesperline fmt) (2 * width fmt) \<and>
         sizeimage (buggy_driver_paranoia fmt) =
           max (sizeimage fmt) (bytesperline (buggy_driver_paranoia fmt) * height fmt) \<and>
         m_captureWidth s' = width fmt \<and> m_captureHeight s' = height fmt \<and>
         m_bufferSize s' = sizeimage (buggy_driver_paranoia fmt) \<and>
         (\<forall>a < buffersCount. \<exists>b. heap s' (node_addr iw a) = Some b \<and>
            buffer b = Some (unat (sizeimage (buggy_driver_paranoia fmt)))) \<and>
         (2 * unat (width fmt) < 2 ^ 32 \<and>
          max (unat (bytesperline fmt)) (2 * unat (width fmt)) * unat (height fmt) < 2 ^ 32 \<longrightarrow>
            unat (bytesperline (buggy_driver_paranoia fmt)) =
              max (unat (bytesperline fmt)) (2 * unat (width fmt)) \<and>
            unat (sizeimage (buggy_driver_paranoia fmt)) =
              max (unat (sizeimage fmt))
                (max (unat (bytesperline fmt)) (2 * unat (width fmt)) * unat (height fmt)))"
proof -
  from init_success [OF assms(1)] assms(2)
  obtain s4 where alloc: "init_allocate iw 0 buffersCount s4 = Inr s'"
    and size: "m_bufferSize s4 = sizeimage (buggy_driver_paranoia fmt)"
    and dims: "m_captureWidth s4 = width fmt" "m_captureHeight s4 = height fmt"
    by auto
  note res = init_allocate_result [OF alloc]
  have bufs: "\<forall>a < buffersCount. \<exists>b. heap s' (node_addr iw a) = Some b \<and>
            buffer b = Some (unat (sizeimage (buggy_driver_paranoia fmt)))"
    using res size by (simp add: init_buffer_def)
  have "m_bufferSize s' = sizeimage (buggy_driver_paranoia fmt)"
    using res size by simp
  moreover have "m_captureWidth s' = width fmt" "m_captureHeight s' = height fmt"
    using res dims by simp_all
  ultimately show ?thesis
    using bufs buggy_driver_paranoia_unat [of fmt]
    by (simp add: buggy_driver_paranoia_max mult.commute)
qed

theorem init_allocates_sanitised_image_size_witness:
  "init example_device (example_frame t1) ''/dev/video0'' 0x56595559 640 480 2 1 2 example_object
     = Inr (True, example_session) \<and>
   m_captureWidth example_session = 352 \<and> m_captureHeight example_session = 288 \<and>
   m_bufferSize example_session = 202752 \<and>
   map_option buffer (heap example_session 0) = Some (Some 202752) \<and>
   map_option buffer (heap example_session 1) = Some (Some 202752)"
proof -
  have fmt: "s_fmt example_device (requested_format 0x56595559 640 480) =
      (0, \<lparr>width = 352, height = 288, pixelformat = 0x56595559, field = 1,
           bytesperline = 352, sizeimage = 0\<rparr>)"
    by (simp add: example_device_def requested_format_def V4L2_FIELD_NONE_def)
  have sz: "sizeimage (buggy_driver_paranoia
       \<lparr>width = 352, height = 288, pixelformat = 0x56595559, field = 1,
           bytesperline = 352, sizeimage = 0\<rparr>) = 202752"
    by (simp add: buggy_driver_paranoia_def)
  have na: "node_addr example_device = (\<lambda>a. a)"
    by (simp add: example_device_def)
  from init_allocates_sanitised_image_size [OF example_init fmt] sz
  have "m_captureWidth example_session = 352 \<and> m_captureHeight example_session = 288 \<and>
        m_bufferSize example_session = 202752 \<and>
        (\<forall>a < 2. \<exists>b. heap example_session a = Some b \<and> buffer b = Some 202752)"
    by (simp add: na)
  then show ?thesis
    by (auto simp: example_init)
qed

section \<open>What the period estimator returns\<close>

lemma fold_add_sum_list: "fold (\<lambda>a mean. mean + a) xs (acc::real) = acc + sum_list xs"
  by (induction xs arbitrary: acc) auto

lemma fold_overwrite_last:
  "fold (\<lambda>a (addedSquares::real). f a) xs acc = (if xs = [] then acc else f (last xs))"
  by (induction xs arbitrary: acc) auto

text \<open>
  What the source computes: the mean of the intervals, and for the deviation only the
  square of the last interval's distance from the mean, since every round of the last
  loop assigns \<open>addedSquares\<close> instead of adding to it.
\<close>

lemma determineCapturePeriodThread_value:
  assumes "intervals_of stamps \<noteq> []"
  shows "determineCapturePeriodThread stamps =
           Some (sample_mean (intervals_of stamps),
                 sqrt ((last (intervals_of stamps) - sample_mean (intervals_of stamps)) ^ 2
                       / real (length (intervals_of stamps))))"
  using assms
  by (simp add: determineCapturePeriodThread_def Let_def fold_add_sum_list fold_overwrite_last
      sample_mean_def power2_eq_square)

lemma intervals_example: "intervals_of example_stamps = [1, 3, 2]"
  by (simp add: example_stamps_def seconds_def)

text \<open>
  Claim C2 (the source departs from it).  For timestamps 1, 3 and 2 seconds apart the
  mean interval is 2 and the standard deviation of the three intervals is
  \<open>sqrt (2 / 3)\<close>; \<open>determineCapturePeriodThread\<close> returns the mean 2 and the
  deviation 0, because just the last interval, which equals the mean, enters its sum of
  squares.
\<close>

theorem determineCapturePeriodThread_keeps_last_square_only:
  "intervals_of example_stamps = [1, 3, 2] \<and>
   determineCapturePeriodThread example_stamps = Some (2, 0) \<and>
   sample_mean (intervals_of example_stamps) = 2 \<and>
   sample_stddev (intervals_of example_stamps) = sqrt (2 / 3) \<and>
   sample_stddev (intervals_of example_stamps) \<noteq> 0"
proof -
  have m: "sample_mean [1, 3, 2] = 2"
    by (simp add: sample_mean_def)
  have c: "determineCapturePeriodThread example_stamps = Some (2, 0)"
    by (simp add: determineCapturePeriodThread_def intervals_example Let_def)
  have s: "sample_stddev [1, 3, 2] = sqrt (2 / 3)"
    by (simp add: sample_stddev_def m)
  have "sqrt (2 / 3) \<noteq> 0"
    by simp
  with m c s show ?thesis
    by (simp add: intervals_example)
qed

section \<open>Borrowing and releasing\<close>

lemma lockFirstNBuffers_loop_result:
  assumes "distinct xs" and "\<forall>p \<in> set xs. h p \<noteq> None"
  shows "\<exists>h'. lockFirstNBuffers_loop a n xs h ret = Inr (ret @ take (n - a) xs, h') \<and>
           (\<forall>p \<in> set (take (n - a) xs).
              \<exists>b. h p = Some b \<and> h' p = Some (b\<lparr>readerCount := readerCount b + 1\<rparr>)) \<and>
           (\<forall>p. p \<notin> set (take (n - a) xs) \<longrightarrow> h' p = h p)"
  using assms
proof (induction xs arbitrary: a h ret)
  case Nil
  then show ?case by simp
next
  case (Cons p its)
  show ?case
  proof (cases "a < n")
    case False
    then show ?thesis by simp
  next
    case True
    from Cons.prems obtain b where b: "h p = Some b"
      by auto
    let ?h1 = "h(p \<mapsto> b\<lparr>readerCount := readerCount b + 1\<rparr>)"
    have d: "distinct its" and pn: "p \<notin> set its"
      using Cons.prems(1) by simp_all
    have live: "\<forall>q \<in> set its. ?h1 q \<noteq> None"
      using Cons.prems(2) by simp
    from Cons.IH [OF d live, of "a + 1" "ret @ [p]"]
    obtain h' where run: "lockFirstNBuffers_loop (a + 1) n its ?h1 (ret @ [p]) =
          Inr ((ret @ [p]) @ take (n - (a + 1)) its, h')"
      and inc: "\<And>q. q \<in> set (take (n - (a + 1)) its) \<Longrightarrow>
          \<exists>c. ?h1 q = Some c \<and> h' q = Some (c\<lparr>readerCount := readerCount c + 1\<rparr>)"
      and same: "\<And>q. q \<notin> set (take (n - (a + 1)) its) \<Longrightarrow> h' q = ?h1 q"
      by blast
    have tk: "take (n - a) (p # its) = p # take (n - (a + 1)) its"
      using True by (simp add: take_Cons')
    have pt: "p \<notin> set (take (n - (a + 1)) its)"
      using pn by (meson in_set_takeD)
    have 1: "lockFirstNBuffers_loop a n (p # its) h ret = Inr (ret @ take (n - a) (p # its), h')"
      using True b run tk by simp
    have 2: "\<forall>q \<in> set (take (n - a) (p # its)).
              \<exists>c. h q = Some c \<and> h' q = Some (c\<lparr>readerCount := readerCount c + 1\<rparr>)"
    proof
      fix q assume "q \<in> set (take (n - a) (p # its))"
      then consider "q = p" | "q \<in> set (take (n - (a + 1)) its)"
        using tk by auto
      then show "\<exists>c. h q = Some c \<and> h' q = Some (c\<lparr>readerCount := readerCount c + 1\<rparr>)"
      proof cases
        case 1
        with same [OF pt] b show ?thesis by simp
      next
        case 2
        with pt have "q \<noteq> p" by auto
        with inc [OF 2] show ?thesis by simp
      qed
    qed
    have 3: "\<forall>q. q \<notin> set (take (n - a) (p # its)) \<longrightarrow> h' q = h q"
    proof (intro allI impI)
      fix q assume "q \<notin> set (take (n - a) (p # its))"
      then have "q \<noteq> p" and "q \<notin> set (take (n - (a + 1)) its)"
        using tk by auto
      with same [of q] show "h' q = h q" by simp
    qed
    from 1 2 3 show ?thesis by blast
  qed
qed

lemma lockFirstNBuffers_result:
  assumes "pool_ok s"
  shows "\<exists>h'. lockFirstNBuffers n s = Inr (take n (m_timelySortedBuffers s), s\<lparr>heap := h'\<rparr>) \<and>
           (\<forall>p \<in> set (take n (m_timelySortedBuffers s)).
              \<exists>b. heap s p = Some b \<and> h' p = Some (b\<lparr>readerCount := readerCount b + 1\<rparr>)) \<and>
           (\<forall>p. p \<notin> set (take n (m_timelySortedBuffers s)) \<longrightarrow> h' p = heap s p)"
proof -
  from assms have d: "distinct (m_timelySortedBuffers s)"
    and l: "\<forall>p \<in> set (m_timelySortedBuffers s). heap s p \<noteq> None"
    and m: "\<not> m_timelySortedBuffersMutex s"
    by (simp_all add: pool_ok_def)
  from lockFirstNBuffers_loop_result [OF d l, of 0 n "[]"]
  obtain h' where run: "lockFirstNBuffers_loop 0 n (m_timelySortedBuffers s) (heap s) [] =
        Inr (take n (m_timelySortedBuffers s), h')"
    and inc: "\<forall>p \<in> set (take n (m_timelySortedBuffers s)).
        \<exists>b. heap s p = Some b \<and> h' p = Some (b\<lparr>readerCount := readerCount b + 1\<rparr>)"
    and same: "\<forall>p. p \<notin> set (take n (m_timelySortedBuffers s)) \<longrightarrow> h' p = heap s p"
    by auto
  have "lockFirstNBuffers n s = Inr (take n (m_timelySortedBuffers s), s\<lparr>heap := h'\<rparr>)"
    using m run by (simp add: lockFirstNBuffers_def)
  with inc same show ?thesis by blast
qed

lemma lockFirstNBuffers_frame:
  "lockFirstNBuffers n s = Inr (refs, s') \<Longrightarrow>
   m_timelySortedBuffers s' = m_timelySortedBuffers s \<and> m_captureThread s' = m_captureThread s"
  by (auto simp: lockFirstNBuffers_def split: if_splits sum.splits)

lemma unlock_inner_result:
  assumes "distinct xs"
  shows "unlock_inner p xs h =
     (if p \<in> set xs then
        (case h p of
           None \<Rightarrow> Inl UndefinedBehaviour
         | Some b \<Rightarrow>
             (if readerCount b - 1 \<ge> 0
              then Inr (h(p \<mapsto> b\<lparr>readerCount := readerCount b - 1\<rparr>))
              else Inl AssertFailed))
      else Inr h)"
  using assms
  by (induction xs arbitrary: h) (auto split: option.splits)

lemma unlock_outer_result:
  assumes "distinct xs" and "\<forall>p \<in> set xs. h p \<noteq> None"
  shows "unlock_outer refs xs h =
           (if releasable refs xs h then Inr (released refs xs h) else Inl AssertFailed)"
  using assms(2)
proof (induction refs arbitrary: h)
  case Nil
  show ?case
    by (simp add: releasable_def released_def)
next
  case (Cons r refs)
  show ?case
  proof (cases "r \<in> set xs")
    case False
    then have inner: "unlock_inner r xs h = Inr h"
      by (simp add: unlock_inner_result [OF assms(1)])
    have c: "releasable (r # refs) xs h = releasable refs xs h"
      using False by (auto simp: releasable_def)
    have h: "released (r # refs) xs h = released refs xs h"
      using False by (auto simp: released_def fun_eq_iff)
    show ?thesis
      using inner Cons.IH [OF Cons.prems] c h by simp
  next
    case True
    with Cons.prems obtain b where b: "h r = Some b"
      by auto
    show ?thesis
    proof (cases "readerCount b - 1 \<ge> 0")
      case False
      have inner: "unlock_inner r xs h = Inl AssertFailed"
        using True b False by (simp add: unlock_inner_result [OF assms(1)])
      have "\<not> releasable (r # refs) xs h"
        using True b False by (auto simp: releasable_def)
      with inner show ?thesis by simp
    next
      case pos: True
      let ?h1 = "h(r \<mapsto> b\<lparr>readerCount := readerCount b - 1\<rparr>)"
      have inner: "unlock_inner r xs h = Inr ?h1"
        using True b pos by (simp add: unlock_inner_result [OF assms(1)])
      have live: "\<forall>p \<in> set xs. ?h1 p \<noteq> None"
        using Cons.prems by simp
      have c: "releasable (r # refs) xs h = releasable refs xs ?h1"
      proof (cases "r \<in> set refs")
        case in_refs: True
        with True b pos show ?thesis
          by (auto simp: releasable_def)
      next
        case False
        then have z: "count (mset refs) r = 0"
          by simp
        from False True b pos show ?thesis
          by (auto simp: releasable_def z)
      qed
      have h: "released (r # refs) xs h = released refs xs ?h1"
        using True b by (auto simp: released_def fun_eq_iff)
      have "unlock_outer (r # refs) xs h = unlock_outer refs xs ?h1"
        using inner by simp
      also have "\<dots> = (if releasable refs xs ?h1 then Inr (released refs xs ?h1)
                         else Inl AssertFailed)"
        by (rule Cons.IH [OF live])
      also have "\<dots> = (if releasable (r # refs) xs h then Inr (released (r # refs) xs h)
                         else Inl AssertFailed)"
        by (simp only: c h)
      finally show ?thesis .
    qed
  qed
qed

lemma unlock_result:
  assumes "pool_ok s"
  shows "unlock refs s =
           (if releasable refs (m_timelySortedBuffers s) (heap s)
            then Inr (s\<lparr>heap := released refs (m_timelySortedBuffers s) (heap s)\<rparr>)
            else Inl AssertFailed)"
  using assms by (simp add: unlock_def pool_ok_def unlock_outer_result)

lemma unlock_unmatched:
  assumes "\<not> m_timelySortedBuffersMutex s" and "set refs \<inter> set (m_timelySortedBuffers s) = {}"
  shows "unlock refs s = Inr s"
proof -
  have inner: "\<And>p xs h. p \<notin> set xs \<Longrightarrow> unlock_inner p xs h = Inr h"
  proof -
    fix p :: addr and xs h show "p \<notin> set xs \<Longrightarrow> unlock_inner p xs h = Inr h"
      by (induction xs arbitrary: h) auto
  qed
  have "\<And>xs h. set refs \<inter> set xs = {} \<Longrightarrow> unlock_outer refs xs h = Inr h"
  proof (induction refs)
    case Nil
    show ?case by simp
  next
    case (Cons r refs)
    then show ?case by (simp add: inner)
  qed
  with assms show ?thesis
    by (simp add: unlock_def)
qed

lemma unlock_frame:
  "unlock refs s = Inr s' \<Longrightarrow>
   m_timelySortedBuffers s' = m_timelySortedBuffers s \<and> m_captureThread s' = m_captureThread s"
  by (auto simp: unlock_def split: if_splits sum.splits)

section \<open>Steps of the capture thread\<close>

lemma captureThread_step_frame:
  assumes "captureThread_step w s = Inr s'"
  shows "mset (m_timelySortedBuffers s' @ claimed (m_captureThread s')) =
           mset (m_timelySortedBuffers s @ claimed (m_captureThread s)) \<and>
         m_buffers s' = m_buffers s \<and> m_fileDescriptor s' = m_fileDescriptor s \<and>
         m_bufferSize s' = m_bufferSize s \<and>
         m_captureThreadCancellationFlag s' = m_captureThreadCancellationFlag s \<and>
         (\<forall>p. heap s' p = None \<longleftrightarrow> heap s p = None) \<and>
         (\<forall>p b. heap s p = Some b \<longrightarrow> (\<exists>b'. heap s' p = Some b' \<and> buffer b' = buffer b))"
proof (cases "m_captureThread s")
  case None
  with assms show ?thesis by (simp add: captureThread_step_def)
next
  case (Some pc)
  show ?thesis
  proof (cases pc)
    case AtClaim
    show ?thesis
    proof (cases "m_timelySortedBuffers s = []")
      case True
      with Some AtClaim assms show ?thesis
        by (auto simp: captureThread_step_def split: if_splits)
    next
      case False
      then have "butlast (m_timelySortedBuffers s) @ [last (m_timelySortedBuffers s)] =
          m_timelySortedBuffers s"
        by simp
      then have "mset (butlast (m_timelySortedBuffers s) @ [last (m_timelySortedBuffers s)]) =
          mset (m_timelySortedBuffers s)"
        by (rule arg_cong)
      then have "add_mset (last (m_timelySortedBuffers s)) (mset (butlast (m_timelySortedBuffers s))) =
          mset (m_timelySortedBuffers s)"
        by simp
      with Some AtClaim assms show ?thesis
        by (auto simp: captureThread_step_def split: if_splits option.splits)
    qed
  qed (use Some assms in \<open>auto simp: captureThread_step_def split: if_splits option.splits\<close>)
qed

lemma captureThread_join_frame:
  "captureThread_join w s = Inr s' \<Longrightarrow>
     mset (m_timelySortedBuffers s') = mset (m_timelySortedBuffers s @ claimed (m_captureThread s)) \<and>
     m_buffers s' = m_buffers s \<and> m_fileDescriptor s' = m_fileDescriptor s \<and>
     m_bufferSize s' = m_bufferSize s \<and>
     (m_captureThread s' = None \<or> m_captureThread s' = Some Finished) \<and>
     (\<forall>p. heap s' p = None \<longleftrightarrow> heap s p = None) \<and>
     (\<forall>p b. heap s p = Some b \<longrightarrow> (\<exists>b'. heap s' p = Some b' \<and> buffer b' = buffer b)) \<and>
     (m_captureThread s = None \<or> m_captureThread s = Some AtLoopHead \<or>
      m_captureThread s = Some Finished \<longrightarrow>
        m_timelySortedBuffers s' = m_timelySortedBuffers s \<and> heap s' = heap s)"
proof (induction w s rule: captureThread_join.induct)
  case (1 w s)
  show ?case
  proof (cases "m_captureThread s = None \<or> m_captureThread s = Some Finished \<or>
      m_captureThread s = Some AtLoopHead")
    case True
    with "1.prems" show ?thesis
      by (auto simp: captureThread_join.simps [of w s] split: if_splits)
  next
    case False
    with "1.prems" obtain s1 where step: "captureThread_step w s = Inr s1"
      and rest: "captureThread_join w s1 = Inr s'"
      by (auto simp: captureThread_join.simps [of w s] split: sum.splits)
    from False have a: "\<not> (m_captureThread s = None \<or> m_captureThread s = Some Finished)"
      and b: "m_captureThread s \<noteq> Some AtLoopHead"
      by simp_all
    note IH = "1.IH" [OF a b step rest]
    note fr = captureThread_step_frame [OF step]
    have heap_some: "\<forall>p b. heap s p = Some b \<longrightarrow> (\<exists>b'. heap s' p = Some b' \<and> buffer b' = buffer b)"
    proof (intro allI impI)
      fix p b assume "heap s p = Some b"
      with fr obtain b1 where "heap s1 p = Some b1" "buffer b1 = buffer b" by blast
      with IH show "\<exists>b'. heap s' p = Some b' \<and> buffer b' = buffer b"
        by (metis)
    qed
    from IH fr have "mset (m_timelySortedBuffers s') =
        mset (m_timelySortedBuffers s @ claimed (m_captureThread s))"
      by simp
    moreover from IH fr have "m_buffers s' = m_buffers s" "m_fileDescriptor s' = m_fileDescriptor s"
      "m_bufferSize s' = m_bufferSize s"
      "m_captureThread s' = None \<or> m_captureThread s' = Some Finished"
      "\<forall>p. heap s' p = None \<longleftrightarrow> heap s p = None"
      by simp_all
    ultimately show ?thesis
      using heap_some False by auto
  qed
qed

section \<open>The ordering in every run\<close>

lemma pool_inv_pool_ok:
  "pool_inv s0 s H \<Longrightarrow> \<not> m_timelySortedBuffersMutex s \<Longrightarrow> pool_ok s"
  by (auto simp: pool_inv_def pool_ok_def)

lemma pool_inv_init:
  assumes "constructed c" and "inj_on (node_addr iw) {..<buffersCount}"
    and "init iw w deviceFileName pixelFormat captureWidth captureHeight buffersCount clockId
       readTimeOut c = Inr (True, s0)"
  shows "pool_inv s0 s0 {#}" and "length (m_timelySortedBuffers s0) = buffersCount"
proof -
  from init_success [OF assms(3)]
  obtain s4 where alloc: "init_allocate iw 0 buffersCount s4 = Inr s0"
    and s4: "m_timelySortedBuffers s4 = m_timelySortedBuffers c" "heap s4 = heap c"
       "m_captureThread s4 = m_captureThread c"
    by auto
  note res = init_allocate_result [OF alloc]
  from res s4 assms(1) have tsb: "m_timelySortedBuffers s0 = map (node_addr iw) [0..<buffersCount]"
    and thr: "m_captureThread s0 = None"
    by (simp_all add: constructed_def)
  have d: "distinct (m_timelySortedBuffers s0)"
    using assms(2) by (simp add: tsb distinct_map atLeast0LessThan)
  have new: "\<And>i. i < buffersCount \<Longrightarrow>
      heap s0 (node_addr iw i) = Some (init_buffer (m_bufferSize s4))"
    using res by simp
  have old: "\<And>p b. heap s0 p = Some b \<Longrightarrow> p \<in> node_addr iw ` {0..<buffersCount}"
  proof (rule ccontr)
    fix p b assume pb: "heap s0 p = Some b" and "p \<notin> node_addr iw ` {0..<buffersCount}"
    with res have "heap s0 p = heap s4 p" by blast
    with s4 assms(1) pb show False by (simp add: constructed_def)
  qed
  have dm: "\<forall>p. p \<in> set (m_timelySortedBuffers s0) \<longleftrightarrow> heap s0 p \<noteq> None"
  proof (intro allI iffI)
    fix p assume "p \<in> set (m_timelySortedBuffers s0)"
    then obtain i where "i < buffersCount" "p = node_addr iw i"
      by (auto simp: tsb)
    with new [of i] show "heap s0 p \<noteq> None" by simp
  next
    fix p assume "heap s0 p \<noteq> None"
    then obtain b where "heap s0 p = Some b" by auto
    from old [OF this] show "p \<in> set (m_timelySortedBuffers s0)"
      by (simp add: tsb)
  qed
  have rc: "\<forall>p b. heap s0 p = Some b \<longrightarrow> readerCount b = int (count {#} p)"
  proof (intro allI impI)
    fix p b assume pb: "heap s0 p = Some b"
    from old [OF pb] obtain i where "i < buffersCount" "p = node_addr iw i" by auto
    with new [of i] pb show "readerCount b = int (count {#} p)"
      by (auto simp: init_buffer_def)
  qed
  show "pool_inv s0 s0 {#}"
    using d dm rc by (simp add: pool_inv_def thr)
  show "length (m_timelySortedBuffers s0) = buffersCount"
    by (simp add: tsb)
qed

lemma pool_steps_ordering:
  assumes "pool_steps buffersCount s0 s"
  shows "mset (m_timelySortedBuffers s @ claimed (m_captureThread s)) =
           mset (m_timelySortedBuffers s0) \<and>
         distinct (m_timelySortedBuffers s0) \<and> length (m_timelySortedBuffers s0) = buffersCount"
  using assms
proof (induction rule: pool_steps.induct)
  case (initialised c iw w deviceFileName pixelFormat captureWidth captureHeight clockId readTimeOut)
  from pool_inv_init [OF initialised] show ?case
    by (simp add: pool_inv_def)
next
  case (started s s')
  then show ?case
    by (auto simp: startCapturing_def split: if_splits)
next
  case (captured s w s')
  with captureThread_step_frame [OF captured(2)] show ?case
    by simp
next
  case (borrowed s n refs s')
  with lockFirstNBuffers_frame [OF borrowed(2)] show ?case
    by simp
next
  case (released s refs s')
  with unlock_frame [OF released(2)] show ?case
    by simp
next
  case (counted s newerThan k)
  then show ?case by simp
qed

lemma pool_run_steps:
  "pool_run buffersCount s0 st \<Longrightarrow> pool_steps buffersCount s0 (fst st)"
proof (induction rule: pool_run.induct)
  case (after_init c iw w deviceFileName pixelFormat captureWidth captureHeight clockId readTimeOut)
  then show ?case by (auto intro: pool_steps.initialised)
next
  case (start s H s')
  then show ?case by (auto intro: pool_steps.started)
next
  case (capture s H w s')
  then show ?case by (auto intro: pool_steps.captured)
next
  case (borrow s H n refs s')
  then show ?case by (auto intro: pool_steps.borrowed)
next
  case (release s H refs s')
  then show ?case by (auto intro: pool_steps.released)
next
  case (count s H newerThan k)
  then show ?case by simp
qed

lemma example_session_run: "pool_run 2 example_session (example_session, {#})"
proof (rule pool_run.after_init [OF _ _ example_init])
  show "constructed example_object"
    by (simp add: constructed_def example_object_def)
  show "inj_on (node_addr example_device) {..<2}"
    by (simp add: example_device_def inj_on_def)
qed

lemma example_filling_run: "pool_run 2 example_session (example_filling, {#})"
proof -
  let ?w = "example_frame t1"
  let ?a = "example_session\<lparr>m_captureThread := Some AtLoopHead\<rparr>"
  let ?b = "example_session\<lparr>m_captureThread := Some AtSelect\<rparr>"
  let ?c = "example_session\<lparr>m_captureThread := Some AtClaim\<rparr>"
  have "startCapturing example_session = Inr ?a"
    by (simp add: startCapturing_def example_session_def)
  from pool_run.start [OF example_session_run this]
  have a: "pool_run 2 example_session (?a, {#})" .
  have "captureThread_step ?w ?a = Inr ?b"
    by (simp add: captureThread_step_def example_session_def)
  from pool_run.capture [OF a this]
  have b: "pool_run 2 example_session (?b, {#})" .
  have "captureThread_step ?w ?b = Inr ?c"
    by (simp add: captureThread_step_def example_session_def example_frame_def)
  from pool_run.capture [OF b this]
  have c: "pool_run 2 example_session (?c, {#})" .
  have "captureThread_step ?w ?c = Inr example_filling"
    by (simp add: captureThread_step_def example_session_def example_filling_def
        example_buffer_def)
  from pool_run.capture [OF c this]
  show ?thesis .
qed

lemma example_filling_steps: "pool_steps 2 example_session example_filling"
  using pool_run_steps [OF example_filling_run] by simp

text \<open>
  Claim C3, as stated, fails: between \<open>pop_back\<close> and \<open>push_front\<close> the claimed
  buffer is in neither end of the ordering.  In the two-buffer session, once the capture
  thread has claimed buffer 1 and waits for the device read, the ordering holds one
  entry, not two.
\<close>

theorem ordering_shrinks_while_filling:
  "pool_steps 2 example_session example_filling \<and>
   m_captureThread example_filling = Some (AtRead 1) \<and>
   m_timelySortedBuffers example_filling = [0] \<and>
   length (m_timelySortedBuffers example_filling) \<noteq> 2"
  using example_filling_steps by (simp add: example_filling_def)

text \<open>
  Claim C3, amended.  Take a session initialised from a newly constructed object and any
  interleaving of \<open>lockFirstNBuffers\<close>, \<open>unlock\<close>, \<open>newerBuffersAvailable\<close> and
  steps of the capture thread.  In every state on the way, the ordering followed by the
  buffer the capture thread has claimed (if any) lists exactly the \<open>buffersCount\<close>
  buffers \<open>init\<close> put into the ordering, each once: nothing is created, destroyed or
  duplicated.  The ordering alone has \<open>buffersCount\<close> distinct entries whenever no
  buffer is claimed, and one fewer while a claimed buffer is being filled.
\<close>

theorem ordering_and_claimed_are_the_buffers:
  assumes "pool_steps buffersCount s0 s"
  shows "distinct (m_timelySortedBuffers s @ claimed (m_captureThread s)) \<and>
         mset (m_timelySortedBuffers s @ claimed (m_captureThread s)) =
           mset (m_timelySortedBuffers s0) \<and>
         length (m_timelySortedBuffers s0) = buffersCount \<and>
         length (m_timelySortedBuffers s) + length (claimed (m_captureThread s)) = buffersCount \<and>
         length (claimed (m_captureThread s)) \<le> 1 \<and>
         (claimed (m_captureThread s) = [] \<longrightarrow>
            distinct (m_timelySortedBuffers s) \<and>
            length (m_timelySortedBuffers s) = buffersCount \<and>
            set (m_timelySortedBuffers s) = set (m_timelySortedBuffers s0))"
proof -
  from pool_steps_ordering [OF assms]
  have m: "mset (m_timelySortedBuffers s @ claimed (m_captureThread s)) =
           mset (m_timelySortedBuffers s0)"
    and d0: "distinct (m_timelySortedBuffers s0)"
    and n: "length (m_timelySortedBuffers s0) = buffersCount"
    by simp_all
  from m d0 have d: "distinct (m_timelySortedBuffers s @ claimed (m_captureThread s))"
    by (metis mset_eq_imp_distinct_iff)
  from m have "length (m_timelySortedBuffers s @ claimed (m_captureThread s)) =
      length (m_timelySortedBuffers s0)"
    by (rule mset_eq_length)
  with n have len: "length (m_timelySortedBuffers s) + length (claimed (m_captureThread s)) =
      buffersCount"
    by simp
  have one: "length (claimed (m_captureThread s)) \<le> 1"
    by (cases "m_captureThread s" rule: claimed.cases) simp_all
  have "set (m_timelySortedBuffers s @ claimed (m_captureThread s)) =
      set (m_timelySortedBuffers s0)"
    by (rule mset_eq_setD [OF m])
  with d len have "claimed (m_captureThread s) = [] \<longrightarrow>
            distinct (m_timelySortedBuffers s) \<and>
            length (m_timelySortedBuffers s) = buffersCount \<and>
            set (m_timelySortedBuffers s) = set (m_timelySortedBuffers s0)"
    by auto
  with d m n len one show ?thesis by blast
qed

theorem ordering_and_claimed_are_the_buffers_witness:
  "pool_steps 2 example_session example_filling \<and>
   claimed (m_captureThread example_filling) = [1] \<and>
   mset (m_timelySortedBuffers example_filling @ [1]) = mset (m_timelySortedBuffers example_session) \<and>
   length (m_timelySortedBuffers example_filling) + 1 = 2"
proof -
  have c: "claimed (m_captureThread example_filling) = [1]"
    by (simp add: example_filling_def)
  from ordering_and_claimed_are_the_buffers [OF example_filling_steps] c
  have "mset (m_timelySortedBuffers example_filling @ [1]) =
          mset (m_timelySortedBuffers example_session) \<and>
        length (m_timelySortedBuffers example_filling) + 1 = 2"
    by simp
  with example_filling_steps c show ?thesis
    by simp
qed

section \<open>Borrowing from the front of the ordering\<close>

text \<open>
  The pool operations and the capture thread neither create nor destroy \<open>Buffer\<close>
  objects, so in every state of every interleaving the ordering lists distinct, live
  buffers, whether the mutex is free or locked.
\<close>

lemma lockFirstNBuffers_loop_dom:
  "lockFirstNBuffers_loop a n xs h ret = Inr (r, h') \<Longrightarrow> (h' p = None) = (h p = None)"
proof (induction xs arbitrary: a h ret)
  case Nil
  then show ?case by simp
next
  case (Cons q its)
  show ?case
  proof (cases "a < n")
    case False
    with Cons.prems show ?thesis by simp
  next
    case True
    with Cons.prems obtain b where b: "h q = Some b"
      and run: "lockFirstNBuffers_loop (a + 1) n its
          (h(q \<mapsto> b\<lparr>readerCount := readerCount b + 1\<rparr>)) (ret @ [q]) = Inr (r, h')"
      by (auto split: option.splits)
    from Cons.IH [OF run] b show ?thesis
      by (cases "p = q") simp_all
  qed
qed

lemma lockFirstNBuffers_dom:
  "lockFirstNBuffers n s = Inr (refs, s') \<Longrightarrow> (heap s' p = None) = (heap s p = None)"
  by (auto simp: lockFirstNBuffers_def lockFirstNBuffers_loop_dom split: if_splits sum.splits)

lemma unlock_inner_dom:
  "unlock_inner q xs h = Inr h' \<Longrightarrow> (h' p = None) = (h p = None)"
proof (induction xs arbitrary: h)
  case Nil
  then show ?case by simp
next
  case (Cons x xs)
  show ?case
  proof (cases "q = x")
    case False
    with Cons show ?thesis by simp
  next
    case True
    with Cons.prems obtain b where b: "h x = Some b"
      and run: "unlock_inner q xs (h(x \<mapsto> b\<lparr>readerCount := readerCount b - 1\<rparr>)) = Inr h'"
      by (auto split: option.splits if_splits)
    from Cons.IH [OF run] b show ?thesis
      by (cases "p = x") simp_all
  qed
qed

lemma unlock_outer_dom:
  "unlock_outer refs xs h = Inr h' \<Longrightarrow> (h' p = None) = (h p = None)"
proof (induction refs arbitrary: h)
  case Nil
  then show ?case by simp
next
  case (Cons r refs)
  from Cons.prems obtain h1 where i: "unlock_inner r xs h = Inr h1"
    and o: "unlock_outer refs xs h1 = Inr h'"
    by (auto split: sum.splits)
  from Cons.IH [OF o] unlock_inner_dom [OF i] show ?case
    by simp
qed

lemma unlock_dom:
  "unlock refs s = Inr s' \<Longrightarrow> (heap s' p = None) = (heap s p = None)"
  by (auto simp: unlock_def unlock_outer_dom split: if_splits sum.splits)

lemma pool_steps_live:
  assumes "pool_steps buffersCount s0 s"
  shows "\<forall>p \<in> set (m_timelySortedBuffers s @ claimed (m_captureThread s)). heap s p \<noteq> None"
  using assms
proof (induction rule: pool_steps.induct)
  case (initialised c iw w deviceFileName pixelFormat captureWidth captureHeight clockId readTimeOut)
  from pool_inv_init(1) [OF initialised]
  have "\<forall>p. p \<in> set (m_timelySortedBuffers s0 @ claimed (m_captureThread s0)) \<longleftrightarrow>
          heap s0 p \<noteq> None"
    unfolding pool_inv_def by blast
  then show ?case
    by blast
next
  case (started s s')
  then show ?case
    by (auto simp: startCapturing_def split: if_splits)
next
  case (captured s w s')
  note fr = captureThread_step_frame [OF captured(2)]
  from fr have "set (m_timelySortedBuffers s' @ claimed (m_captureThread s')) =
      set (m_timelySortedBuffers s @ claimed (m_captureThread s))"
    by (metis mset_eq_setD)
  with fr captured(3) show ?case
    by simp
next
  case (borrowed s n refs s')
  with lockFirstNBuffers_frame [OF borrowed(2)] lockFirstNBuffers_dom [OF borrowed(2)] show ?case
    by simp
next
  case (released s refs s')
  with unlock_frame [OF released(2)] unlock_dom [OF released(2)] show ?case
    by simp
next
  case (counted s newerThan k)
  then show ?case by simp
qed

lemma pool_steps_pool_live:
  assumes "pool_steps buffersCount s0 s"
  shows "pool_live s"
proof -
  from pool_steps_ordering [OF assms]
  have m: "mset (m_timelySortedBuffers s @ claimed (m_captureThread s)) =
           mset (m_timelySortedBuffers s0)"
    and d0: "distinct (m_timelySortedBuffers s0)"
    by simp_all
  from m d0 have "distinct (m_timelySortedBuffers s @ claimed (m_captureThread s))"
    by (metis mset_eq_imp_distinct_iff)
  with pool_steps_live [OF assms] show ?thesis
    by (simp add: pool_live_def)
qed

lemma lockFirstNBuffers_live_result:
  assumes "pool_live s" and "\<not> m_timelySortedBuffersMutex s"
  shows "\<exists>h'. lockFirstNBuffers n s = Inr (take n (m_timelySortedBuffers s), s\<lparr>heap := h'\<rparr>) \<and>
           (\<forall>p \<in> set (take n (m_timelySortedBuffers s)).
              \<exists>b. heap s p = Some b \<and> h' p = Some (b\<lparr>readerCount := readerCount b + 1\<rparr>)) \<and>
           (\<forall>p. p \<notin> set (take n (m_timelySortedBuffers s)) \<longrightarrow> h' p = heap s p)"
proof -
  from assms have "pool_ok s"
    by (simp add: pool_live_def pool_ok_def)
  then show ?thesis
    by (rule lockFirstNBuffers_result)
qed

lemma example_held_run: "pool_run 2 example_session (example_held, {#0, 1#})"
proof -
  let ?w = "example_frame t1"
  let ?h = "example_session\<lparr>heap := [0 \<mapsto> example_buffer t0 1, 1 \<mapsto> example_buffer t0 1]\<rparr>"
  have "lockFirstNBuffers 2 example_session = Inr ([0, 1], ?h)"
    by (simp add: lockFirstNBuffers_def example_session_def example_buffer_def fun_eq_iff)
  from pool_run.borrow [OF example_session_run this]
  have h: "pool_run 2 example_session (?h, {#0, 1#})"
    by (simp add: add_mset_commute)
  have "startCapturing ?h = Inr (?h\<lparr>m_captureThread := Some AtLoopHead\<rparr>)"
    by (simp add: startCapturing_def example_session_def)
  from pool_run.start [OF h this]
  have a: "pool_run 2 example_session (?h\<lparr>m_captureThread := Some AtLoopHead\<rparr>, {#0, 1#})" .
  have "captureThread_step ?w (?h\<lparr>m_captureThread := Some AtLoopHead\<rparr>) =
      Inr (?h\<lparr>m_captureThread := Some AtSelect\<rparr>)"
    by (simp add: captureThread_step_def example_session_def)
  from pool_run.capture [OF a this]
  have b: "pool_run 2 example_session (?h\<lparr>m_captureThread := Some AtSelect\<rparr>, {#0, 1#})" .
  have "captureThread_step ?w (?h\<lparr>m_captureThread := Some AtSelect\<rparr>) = Inr example_held"
    by (simp add: captureThread_step_def example_session_def example_frame_def example_held_def)
  from pool_run.capture [OF b this]
  show ?thesis .
qed

lemma example_stuck_steps: "pool_steps 2 example_session example_stuck"
proof -
  have "captureThread_step (example_frame t1) example_held = Inr example_stuck"
    by (simp add: captureThread_step_def example_held_def example_stuck_def example_session_def
        example_buffer_def)
  from pool_run.capture [OF example_held_run this]
  have "pool_run 2 example_session (example_stuck, {#0, 1#})" .
  from pool_run_steps [OF this] show ?thesis
    by simp
qed

lemma pool_live_example_pool3: "pool_live example_pool3"
  by (simp add: pool_live_def example_pool3_def example_object_def)

lemma example_filling_borrow:
  "lockFirstNBuffers 2 example_filling =
     Inr ([0], example_filling\<lparr>heap := [0 \<mapsto> example_buffer t0 1, 1 \<mapsto> example_buffer t0 0]\<rparr>)"
  by (simp add: lockFirstNBuffers_def example_filling_def example_session_def example_buffer_def
      fun_eq_iff)

text \<open>
  Claim C6, as stated, fails while the capture thread fills a buffer: the claimed buffer
  is out of the ordering and cannot be borrowed.  In the two-buffer session, with buffer 1
  claimed for the device read and the lock free, \<open>lockFirstNBuffers 2\<close> returns one
  reference, not two.
\<close>

theorem lockFirstNBuffers_short_while_filling:
  "pool_steps 2 example_session example_filling \<and>
   m_buffers example_filling = [1, 0] \<and>
   m_timelySortedBuffers example_filling = [0] \<and>
   \<not> m_timelySortedBuffersMutex example_filling \<and>
   map_sum id fst (lockFirstNBuffers 2 example_filling) = Inr [0] \<and>
   length [0 :: addr] \<noteq> min 2 (length (m_buffers example_filling))"
  using example_filling_steps example_filling_borrow
  by (simp add: example_filling_def example_session_def)

text \<open>
  Claim C6, amended.  Take a pool whose ordering lists distinct, live buffers; every
  state of every interleaving of the pool operations and the capture thread is one
  (lemma \<open>pool_steps_pool_live\<close>).  \<open>lockFirstNBuffers n\<close> waits exactly when the
  mutex is locked.  With the mutex free it returns, whatever the reader counts are: its
  result is the first \<open>min n (length ordering)\<close> entries of the ordering in the
  ordering's (newest-first) order; each returned buffer has its reader count raised by
  exactly one and is otherwise untouched; every other buffer, the ordering and the rest
  of the object are unchanged.  In every state of an interleaving the ordering holds the
  \<open>buffersCount\<close> buffers less the one the capture thread has claimed, if any.
\<close>

theorem lockFirstNBuffers_takes_front_of_ordering:
  assumes "pool_live s"
  shows "(lockFirstNBuffers n s = Inl Blocked \<longleftrightarrow> m_timelySortedBuffersMutex s) \<and>
         (\<not> m_timelySortedBuffersMutex s \<longrightarrow>
            (\<exists>s'. lockFirstNBuffers n s = Inr (take n (m_timelySortedBuffers s), s') \<and>
               length (take n (m_timelySortedBuffers s)) = min n (length (m_timelySortedBuffers s)) \<and>
               (\<forall>p \<in> set (take n (m_timelySortedBuffers s)).
                  \<exists>b. heap s p = Some b \<and>
                      heap s' p = Some (b\<lparr>readerCount := readerCount b + 1\<rparr>)) \<and>
               (\<forall>p. p \<notin> set (take n (m_timelySortedBuffers s)) \<longrightarrow> heap s' p = heap s p) \<and>
               m_timelySortedBuffers s' = m_timelySortedBuffers s \<and>
               s' = s\<lparr>heap := heap s'\<rparr>)) \<and>
         (pool_steps buffersCount s0 s \<longrightarrow>
            length (m_timelySortedBuffers s) + length (claimed (m_captureThread s)) = buffersCount \<and>
            length (claimed (m_captureThread s)) \<le> 1)"
proof -
  have free: "\<not> m_timelySortedBuffersMutex s \<longrightarrow>
            (\<exists>s'. lockFirstNBuffers n s = Inr (take n (m_timelySortedBuffers s), s') \<and>
               length (take n (m_timelySortedBuffers s)) = min n (length (m_timelySortedBuffers s)) \<and>
               (\<forall>p \<in> set (take n (m_timelySortedBuffers s)).
                  \<exists>b. heap s p = Some b \<and>
                      heap s' p = Some (b\<lparr>readerCount := readerCount b + 1\<rparr>)) \<and>
               (\<forall>p. p \<notin> set (take n (m_timelySortedBuffers s)) \<longrightarrow> heap s' p = heap s p) \<and>
               m_timelySortedBuffers s' = m_timelySortedBuffers s \<and>
               s' = s\<lparr>heap := heap s'\<rparr>)"
  proof
    assume m: "\<not> m_timelySortedBuffersMutex s"
    from lockFirstNBuffers_live_result [OF assms m, of n]
    obtain h' where "lockFirstNBuffers n s = Inr (take n (m_timelySortedBuffers s), s\<lparr>heap := h'\<rparr>)"
      and "\<forall>p \<in> set (take n (m_timelySortedBuffers s)).
          \<exists>b. heap s p = Some b \<and> h' p = Some (b\<lparr>readerCount := readerCount b + 1\<rparr>)"
      and "\<forall>p. p \<notin> set (take n (m_timelySortedBuffers s)) \<longrightarrow> h' p = heap s p"
      by blast
    then show "\<exists>s'. lockFirstNBuffers n s = Inr (take n (m_timelySortedBuffers s), s') \<and>
               length (take n (m_timelySortedBuffers s)) = min n (length (m_timelySortedBuffers s)) \<and>
               (\<forall>p \<in> set (take n (m_timelySortedBuffers s)).
                  \<exists>b. heap s p = Some b \<and>
                      heap s' p = Some (b\<lparr>readerCount := readerCount b + 1\<rparr>)) \<and>
               (\<forall>p. p \<notin> set (take n (m_timelySortedBuffers s)) \<longrightarrow> heap s' p = heap s p) \<and>
               m_timelySortedBuffers s' = m_timelySortedBuffers s \<and>
               s' = s\<lparr>heap := heap s'\<rparr>"
      by (intro exI [of _ "s\<lparr>heap := h'\<rparr>"]) simp
  qed
  have blocked: "lockFirstNBuffers n s = Inl Blocked \<longleftrightarrow> m_timelySortedBuffersMutex s"
  proof
    assume "lockFirstNBuffers n s = Inl Blocked"
    with free show "m_timelySortedBuffersMutex s"
      by auto
  next
    assume "m_timelySortedBuffersMutex s"
    then show "lockFirstNBuffers n s = Inl Blocked"
      by (simp add: lockFirstNBuffers_def)
  qed
  have size: "pool_steps buffersCount s0 s \<longrightarrow>
            length (m_timelySortedBuffers s) + length (claimed (m_captureThread s)) = buffersCount \<and>
            length (claimed (m_captureThread s)) \<le> 1"
  proof
    assume "pool_steps buffersCount s0 s"
    from pool_steps_ordering [OF this]
    have m: "mset (m_timelySortedBuffers s @ claimed (m_captureThread s)) =
           mset (m_timelySortedBuffers s0)"
      and n: "length (m_timelySortedBuffers s0) = buffersCount"
      by simp_all
    from m have "length (m_timelySortedBuffers s @ claimed (m_captureThread s)) =
        length (m_timelySortedBuffers s0)"
      by (rule mset_eq_length)
    moreover have "length (claimed (m_captureThread s)) \<le> 1"
      by (cases "m_captureThread s" rule: claimed.cases) simp_all
    ultimately show "length (m_timelySortedBuffers s) + length (claimed (m_captureThread s)) = buffersCount \<and>
            length (claimed (m_captureThread s)) \<le> 1"
      using n by simp
  qed
  from blocked free size show ?thesis
    by blast
qed

text \<open>
  The scenario of the specification: three buffers stamped \<open>t1 < t2 < t3\<close>, the newest
  in front; borrowing two returns the buffers stamped \<open>t3\<close> and \<open>t2\<close>, each now with
  reader count 1, and leaves the third alone.  The two-buffer session while buffer 1 is
  being filled: its ordering holds one entry.  And the two-buffer session with its mutex
  locked: the call waits.
\<close>

theorem lockFirstNBuffers_takes_front_of_ordering_witness:
  "pool_live example_pool3 \<and>
   lockFirstNBuffers 2 example_pool3 \<noteq> Inl Blocked \<and>
   map_sum id fst (lockFirstNBuffers 2 example_pool3) = Inr [0, 1] \<and>
   map_sum id (\<lambda>r. map (heap (snd r)) [0, 1, 2]) (lockFirstNBuffers 2 example_pool3) =
     Inr [Some (example_buffer t3 1), Some (example_buffer t2 1), Some (example_buffer t1 0)] \<and>
   pool_steps 2 example_session example_filling \<and>
   claimed (m_captureThread example_filling) = [1] \<and>
   length (m_timelySortedBuffers example_filling) + 1 = 2 \<and>
   pool_steps 2 example_session example_stuck \<and>
   m_timelySortedBuffersMutex example_stuck \<and>
   lockFirstNBuffers 1 example_stuck = Inl Blocked"
proof -
  note front = lockFirstNBuffers_takes_front_of_ordering [OF pool_live_example_pool3, of 2]
  have m: "\<not> m_timelySortedBuffersMutex example_pool3"
    by (simp add: example_pool3_def example_object_def)
  from front m have nb: "lockFirstNBuffers 2 example_pool3 \<noteq> Inl Blocked"
    by blast
  from front m
  obtain s' where r: "lockFirstNBuffers 2 example_pool3 =
        Inr (take 2 (m_timelySortedBuffers example_pool3), s')"
    and inc: "\<forall>p \<in> set (take 2 (m_timelySortedBuffers example_pool3)).
        \<exists>b. heap example_pool3 p = Some b \<and>
            heap s' p = Some (b\<lparr>readerCount := readerCount b + 1\<rparr>)"
    and same: "\<forall>p. p \<notin> set (take 2 (m_timelySortedBuffers example_pool3)) \<longrightarrow>
        heap s' p = heap example_pool3 p"
    by blast
  have tk: "take 2 (m_timelySortedBuffers example_pool3) = [0, 1]"
    by (simp add: example_pool3_def example_object_def)
  from inc have "heap s' 0 = Some (example_buffer t3 1)" "heap s' 1 = Some (example_buffer t2 1)"
    by (simp_all add: tk example_pool3_def example_object_def example_buffer_def)
  moreover from same have "heap s' 2 = Some (example_buffer t1 0)"
    by (simp add: tk example_pool3_def example_object_def)
  ultimately have scenario: "map_sum id fst (lockFirstNBuffers 2 example_pool3) = Inr [0, 1] \<and>
      map_sum id (\<lambda>r. map (heap (snd r)) [0, 1, 2]) (lockFirstNBuffers 2 example_pool3) =
        Inr [Some (example_buffer t3 1), Some (example_buffer t2 1), Some (example_buffer t1 0)]"
    using r tk by simp
  have c: "claimed (m_captureThread example_filling) = [1]"
    by (simp add: example_filling_def)
  from lockFirstNBuffers_takes_front_of_ordering
    [OF pool_steps_pool_live [OF example_filling_steps], of 2 2 example_session]
    example_filling_steps c
  have size: "length (m_timelySortedBuffers example_filling) + 1 = 2"
    by simp
  have locked: "m_timelySortedBuffersMutex example_stuck"
    by (simp add: example_stuck_def)
  from lockFirstNBuffers_takes_front_of_ordering
    [OF pool_steps_pool_live [OF example_stuck_steps], of 1] locked
  have waits: "lockFirstNBuffers 1 example_stuck = Inl Blocked"
    by blast
  from pool_live_example_pool3 nb scenario example_filling_steps c size
    example_stuck_steps locked waits
  show ?thesis
    by blast
qed

section \<open>Matched borrowing and releasing\<close>

lemma pool_inv_start:
  "pool_inv s0 s H \<Longrightarrow> startCapturing s = Inr s' \<Longrightarrow> pool_inv s0 s' H"
  by (auto simp: pool_inv_def startCapturing_def split: if_splits)

lemma pool_inv_capture:
  assumes "pool_inv s0 s H" and "captureThread_step w s = Inr s'"
  shows "pool_inv s0 s' H"
proof (cases "m_captureThread s")
  case None
  with assms show ?thesis by (simp add: captureThread_step_def)
next
  case (Some pc)
  show ?thesis
  proof (cases pc)
    case AtLoopHead
    with Some assms show ?thesis
      by (auto simp: captureThread_step_def pool_inv_def split: if_splits)
  next
    case AtSelect
    with Some assms show ?thesis
      by (auto simp: captureThread_step_def pool_inv_def split: if_splits)
  next
    case AtClaim
    show ?thesis
    proof (cases "m_timelySortedBuffersMutex s \<or> m_timelySortedBuffers s = []")
      case True
      with Some AtClaim assms(2) show ?thesis
        by (auto simp: captureThread_step_def split: if_splits)
    next
      case False
      then have ne: "m_timelySortedBuffers s \<noteq> []" by simp
      let ?p = "last (m_timelySortedBuffers s)"
      from False Some AtClaim assms(2) obtain b where b: "heap s ?p = Some b"
        by (auto simp: captureThread_step_def split: option.splits)
      show ?thesis
      proof (cases "readerCount b > 0")
        case True
        with False Some AtClaim assms b have
          "s' = s\<lparr>m_timelySortedBuffersMutex := True, m_captureThread := Some AtLoopHead\<rparr>"
          by (auto simp: captureThread_step_def)
        with assms(1) Some AtClaim show ?thesis
          by (simp add: pool_inv_def)
      next
        case free: False
        with False Some AtClaim assms b have s': 
          "s' = s\<lparr>m_timelySortedBuffers := butlast (m_timelySortedBuffers s),
                  m_timelySortedBuffersMutex := False,
                  m_captureThread := Some (AtRead ?p)\<rparr>"
          by (auto simp: captureThread_step_def)
        have app: "butlast (m_timelySortedBuffers s) @ [?p] = m_timelySortedBuffers s"
          using ne by simp
        from assms(1) b free have "count H ?p = 0"
          by (auto simp: pool_inv_def)
        then have notin: "?p \<notin># H"
          by (simp add: count_eq_zero_iff)
        have sub: "set_mset H \<subseteq> set (butlast (m_timelySortedBuffers s))"
        proof
          fix q assume q: "q \<in># H"
          with assms(1) have "q \<in> set (m_timelySortedBuffers s)"
            by (auto simp: pool_inv_def)
          then have "q \<in> set (butlast (m_timelySortedBuffers s) @ [?p])"
            by (simp only: app)
          with q notin show "q \<in> set (butlast (m_timelySortedBuffers s))"
            by auto
        qed
        from assms(1) Some AtClaim sub show ?thesis
          by (simp add: pool_inv_def s' app)
      qed
    qed
  next
    case (AtRead p)
    with Some assms show ?thesis
      by (auto simp: captureThread_step_def pool_inv_def split: if_splits option.splits)
  next
    case (AtPublish p)
    with Some assms show ?thesis
      by (auto simp: captureThread_step_def pool_inv_def split: if_splits)
  next
    case Finished
    with Some assms show ?thesis by (simp add: captureThread_step_def)
  qed
qed

lemma pool_inv_borrow:
  assumes "pool_inv s0 s H" and "lockFirstNBuffers n s = Inr (refs, s')"
  shows "pool_inv s0 s' (H + mset refs)"
proof -
  from assms(2) have m: "\<not> m_timelySortedBuffersMutex s"
    by (auto simp: lockFirstNBuffers_def split: if_splits)
  from lockFirstNBuffers_result [OF pool_inv_pool_ok [OF assms(1) m], of n] assms(2)
  obtain h' where refs: "refs = take n (m_timelySortedBuffers s)" and s': "s' = s\<lparr>heap := h'\<rparr>"
    and inc: "\<And>p. p \<in> set refs \<Longrightarrow>
        \<exists>b. heap s p = Some b \<and> h' p = Some (b\<lparr>readerCount := readerCount b + 1\<rparr>)"
    and same: "\<And>p. p \<notin> set refs \<Longrightarrow> h' p = heap s p"
    by auto
  from assms(1) have d: "distinct (m_timelySortedBuffers s)"
    by (simp add: pool_inv_def)
  then have dr: "distinct refs"
    by (simp add: refs)
  have live: "\<forall>p. heap s' p \<noteq> None \<longleftrightarrow> heap s p \<noteq> None"
  proof
    fix p show "heap s' p \<noteq> None \<longleftrightarrow> heap s p \<noteq> None"
      using inc [of p] same [of p] by (cases "p \<in> set refs") (auto simp: s')
  qed
  have rc: "\<forall>p b. heap s' p = Some b \<longrightarrow> readerCount b = int (count (H + mset refs) p)"
  proof (intro allI impI)
    fix p b assume pb: "heap s' p = Some b"
    show "readerCount b = int (count (H + mset refs) p)"
    proof (cases "p \<in> set refs")
      case True
      with dr have c: "count (mset refs) p = 1"
        by (simp add: distinct_count_atmost_1)
      from inc [OF True] pb obtain b0 where "heap s p = Some b0"
        "b = b0\<lparr>readerCount := readerCount b0 + 1\<rparr>"
        by (auto simp: s')
      with assms(1) c show ?thesis
        by (auto simp: pool_inv_def)
    next
      case False
      then have c: "count (mset refs) p = 0"
        by simp
      from same [OF False] pb have "heap s p = Some b"
        by (simp add: s')
      with assms(1) show ?thesis
        by (auto simp: pool_inv_def c)
    qed
  qed
  have sub: "set_mset (H + mset refs) \<subseteq> set (m_timelySortedBuffers s')"
    using assms(1) by (auto simp: pool_inv_def s' refs dest: in_set_takeD)
  from assms(1) live rc sub show ?thesis
    by (simp add: pool_inv_def s')
qed

lemma pool_inv_release:
  assumes "pool_inv s0 s H" and "mset refs \<subseteq># H" and "unlock refs s = Inr s'"
  shows "pool_inv s0 s' (H - mset refs)"
proof -
  let ?xs = "m_timelySortedBuffers s"
  from assms(3) have m: "\<not> m_timelySortedBuffersMutex s"
    by (auto simp: unlock_def split: if_splits)
  from unlock_result [OF pool_inv_pool_ok [OF assms(1) m], of refs] assms(3)
  have s': "s' = s\<lparr>heap := released refs ?xs (heap s)\<rparr>"
    by (auto split: if_splits)
  have live: "\<forall>p. heap s' p \<noteq> None \<longleftrightarrow> heap s p \<noteq> None"
    by (auto simp: s' released_def)
  have le: "\<And>p. count (mset refs) p \<le> count H p"
    using assms(2) by (rule mset_subset_eq_count)
  have rc: "\<forall>p b. heap s' p = Some b \<longrightarrow> readerCount b = int (count (H - mset refs) p)"
  proof (intro allI impI)
    fix p b assume pb: "heap s' p = Some b"
    show "readerCount b = int (count (H - mset refs) p)"
    proof (cases "p \<in> set refs \<and> p \<in> set ?xs")
      case True
      with pb obtain b0 where b0: "heap s p = Some b0"
        and b: "b = b0\<lparr>readerCount := readerCount b0 - int (count (mset refs) p)\<rparr>"
        by (auto simp: s' released_def)
      from assms(1) b0 have "readerCount b0 = int (count H p)"
        by (auto simp: pool_inv_def)
      with b le [of p] show ?thesis
        by simp
    next
      case False
      with pb have b0: "heap s p = Some b"
        by (auto simp: s' released_def)
      with assms(1) have r: "readerCount b = int (count H p)"
        by (auto simp: pool_inv_def)
      have z: "count (mset refs) p = 0"
      proof (rule ccontr)
        assume "count (mset refs) p \<noteq> 0"
        then have pr: "p \<in> set refs" by simp
        with le [of p] have "p \<in># H"
          by (metis count_mset_0_iff le_zero_eq not_in_iff)
        with assms(1) have "p \<in> set ?xs"
          by (auto simp: pool_inv_def)
        with pr False show False by simp
      qed
      from r show ?thesis by (simp add: z)
    qed
  qed
  have sub: "set_mset (H - mset refs) \<subseteq> set (m_timelySortedBuffers s')"
    using assms(1) by (auto simp: pool_inv_def s' dest: in_diffD)
  from assms(1) live rc sub show ?thesis
    by (simp add: pool_inv_def s')
qed

lemma pool_run_inv:
  assumes "pool_run buffersCount s0 st"
  shows "pool_inv s0 (fst st) (snd st) \<and> length (m_timelySortedBuffers s0) = buffersCount"
  using assms
proof (induction rule: pool_run.induct)
  case (after_init c iw w deviceFileName pixelFormat captureWidth captureHeight clockId readTimeOut)
  then show ?case
    using pool_inv_init by simp
next
  case (start s H s')
  then show ?case by (auto intro: pool_inv_start)
next
  case (capture s H w s')
  then show ?case by (auto intro: pool_inv_capture)
next
  case (borrow s H n refs s')
  then show ?case by (auto intro: pool_inv_borrow)
next
  case (release s H refs s')
  then show ?case by (auto intro: pool_inv_release)
next
  case (count s H newerThan k)
  then show ?case by simp
qed

text \<open>
  Every state of a run satisfies \<open>pool_ok\<close> whenever the mutex is free: the pool
  operations are entered in such states.
\<close>

lemma pool_run_pool_ok:
  assumes "pool_run buffersCount s0 (s, H)" and "\<not> m_timelySortedBuffersMutex s"
  shows "pool_ok s"
  using pool_run_inv [OF assms(1)] assms(2) by (auto intro: pool_inv_pool_ok)

lemma pool_inv_live:
  assumes "pool_inv s0 s H" and "p \<in> set (m_timelySortedBuffers s)"
  shows "\<exists>b. heap s p = Some b \<and> readerCount b = int (count H p)"
proof -
  from assms(1) have dm: "\<forall>p. p \<in> set (m_timelySortedBuffers s @ claimed (m_captureThread s)) \<longleftrightarrow>
          heap s p \<noteq> None"
    and rc: "\<forall>p b. heap s p = Some b \<longrightarrow> readerCount b = int (count H p)"
    unfolding pool_inv_def by blast+
  from assms(2) have "p \<in> set (m_timelySortedBuffers s @ claimed (m_captureThread s))"
    by simp
  with dm have "heap s p \<noteq> None"
    by blast
  with rc show ?thesis
    by auto
qed

lemma pool_inv_held:
  "pool_inv s0 s H \<Longrightarrow> p \<in># H \<Longrightarrow> p \<in> set (m_timelySortedBuffers s)"
  by (auto simp: pool_inv_def)

lemma released_matched:
  assumes "pool_inv s0 s H" and "mset refs \<subseteq># H" and "heap s p = Some b"
  shows "released refs (m_timelySortedBuffers s) (heap s) p =
           Some (b\<lparr>readerCount := readerCount b - int (count (mset refs) p)\<rparr>)"
proof (cases "p \<in> set refs")
  case True
  then have "p \<in># mset refs" by simp
  with assms(2) have "p \<in># H" by (meson mset_subset_eqD)
  with assms(1) have "p \<in> set (m_timelySortedBuffers s)"
    by (auto simp: pool_inv_def)
  with True assms(3) show ?thesis
    by (simp add: released_def)
next
  case False
  then have z: "count (mset refs) p = 0"
    by simp
  from False assms(3) show ?thesis
    by (simp add: released_def z)
qed

lemma releasable_matched:
  assumes "pool_inv s0 s H" and "mset refs \<subseteq># H"
  shows "releasable refs (m_timelySortedBuffers s) (heap s)"
  unfolding releasable_def
proof (intro ballI impI)
  fix p assume "p \<in> set refs" and p: "p \<in> set (m_timelySortedBuffers s)"
  from pool_inv_live [OF assms(1) p] obtain b where b: "heap s p = Some b"
    and "readerCount b = int (count H p)"
    by blast
  moreover have "count (mset refs) p \<le> count H p"
    using assms(2) by (rule mset_subset_eq_count)
  ultimately show "int (count (mset refs) p) \<le> readerCount (the (heap s p))"
    using b by simp
qed

lemma not_releasable_excess:
  assumes "pool_inv s0 s H" and "p \<in> set refs" and "p \<in> set (m_timelySortedBuffers s)"
    and "count H p < count (mset refs) p"
  shows "\<not> releasable refs (m_timelySortedBuffers s) (heap s)"
proof
  assume r: "releasable refs (m_timelySortedBuffers s) (heap s)"
  from pool_inv_live [OF assms(1,3)] obtain b where b: "heap s p = Some b"
    and "readerCount b = int (count H p)"
    by blast
  moreover from r assms(2,3) b have "int (count (mset refs) p) \<le> readerCount b"
    by (auto simp: releasable_def)
  ultimately show False
    using assms(4) by simp
qed

lemma example_borrowed_run: "pool_run 2 example_session (example_borrowed, {#0#})"
proof -
  have "lockFirstNBuffers 1 example_session = Inr ([0], example_borrowed)"
    by (simp add: lockFirstNBuffers_def example_session_def example_borrowed_def
        example_buffer_def)
  from pool_run.borrow [OF example_session_run this]
  show ?thesis by simp
qed

lemma example_second_claim_run: "pool_run 2 example_session (example_second_claim, {#})"
proof -
  let ?w = "example_frame t1"
  let ?d = "example_filling\<lparr>heap := [0 \<mapsto> example_buffer t0 0, 1 \<mapsto> example_buffer t1 0],
      m_captureThread := Some (AtPublish 1)\<rparr>"
  let ?e = "example_session\<lparr>heap := [0 \<mapsto> example_buffer t0 0, 1 \<mapsto> example_buffer t1 0],
      m_timelySortedBuffers := [1, 0], m_captureThread := Some AtLoopHead\<rparr>"
  have "captureThread_step ?w example_filling = Inr ?d"
    by (simp add: captureThread_step_def example_filling_def example_session_def
        example_frame_def example_buffer_def)
  from pool_run.capture [OF example_filling_run this]
  have d: "pool_run 2 example_session (?d, {#})" .
  have "captureThread_step ?w ?d = Inr ?e"
    by (simp add: captureThread_step_def example_filling_def example_session_def)
  from pool_run.capture [OF d this]
  have e: "pool_run 2 example_session (?e, {#})" .
  have "captureThread_step ?w ?e = Inr (?e\<lparr>m_captureThread := Some AtSelect\<rparr>)"
    by (simp add: captureThread_step_def example_session_def)
  from pool_run.capture [OF e this]
  have f: "pool_run 2 example_session (?e\<lparr>m_captureThread := Some AtSelect\<rparr>, {#})" .
  have "captureThread_step ?w (?e\<lparr>m_captureThread := Some AtSelect\<rparr>) =
      Inr (?e\<lparr>m_captureThread := Some AtClaim\<rparr>)"
    by (simp add: captureThread_step_def example_session_def example_frame_def)
  from pool_run.capture [OF f this]
  have g: "pool_run 2 example_session (?e\<lparr>m_captureThread := Some AtClaim\<rparr>, {#})" .
  have "captureThread_step ?w (?e\<lparr>m_captureThread := Some AtClaim\<rparr>) = Inr example_second_claim"
    by (simp add: captureThread_step_def example_session_def example_second_claim_def
        example_buffer_def)
  from pool_run.capture [OF g this]
  show ?thesis .
qed

text \<open>
  Claim C7, as stated, fails for a reference to a buffer that is not in the ordering:
  \<open>unlock\<close> compares the released pointers with the entries of the ordering only.  A
  caller borrows the newest buffer (buffer 0) of the two-buffer session and releases
  it; one capture iteration later the capture thread has claimed buffer 0; the caller
  releases the same sequence a second time.  The call returns normally: no count is
  decremented and no assertion fires.
\<close>

theorem unlock_skips_claimed_buffer:
  "lockFirstNBuffers 1 example_session = Inr ([0], example_borrowed) \<and>
   unlock [0] example_borrowed = Inr example_session \<and>
   pool_run 2 example_session (example_second_claim, {#}) \<and>
   m_captureThread example_second_claim = Some (AtRead 0) \<and>
   map_option readerCount (heap example_second_claim 0) = Some 0 \<and>
   unlock [0] example_second_claim = Inr example_second_claim"
proof -
  have 1: "lockFirstNBuffers 1 example_session = Inr ([0], example_borrowed)"
    by (simp add: lockFirstNBuffers_def example_session_def example_borrowed_def
        example_buffer_def)
  have 2: "unlock [0] example_borrowed = Inr example_session"
    by (simp add: unlock_def example_session_def example_borrowed_def example_buffer_def
        fun_eq_iff)
  have 3: "m_captureThread example_second_claim = Some (AtRead 0)"
    "map_option readerCount (heap example_second_claim 0) = Some 0"
    by (simp_all add: example_second_claim_def example_buffer_def)
  have 4: "unlock [0] example_second_claim = Inr example_second_claim"
    by (simp add: unlock_def example_second_claim_def example_session_def)
  from 1 2 3 4 example_second_claim_run show ?thesis
    by blast
qed

text \<open>
  Claim C7, amended.  In every state of a run in which callers release only references
  they hold (\<open>H\<close> is the multiset of references handed out and not yet given back):
  every reader count equals the number of outstanding references to its buffer, so none
  is negative; releasing references that are held returns (once the lock is free) and
  lowers each buffer's count by the number of times it is released, which is exactly 1
  for each buffer of a sequence returned by one \<open>lockFirstNBuffers\<close> call; a release
  that names a buffer of the ordering more often than it is held, and so drives its
  count below zero, ends in the failed assertion; whenever \<open>unlock\<close> returns normally,
  no count is negative; and references to buffers outside the ordering are skipped.
\<close>

theorem unlock_matched_release:
  assumes "pool_run buffersCount s0 (s, H)"
  shows "(\<forall>p b. heap s p = Some b \<longrightarrow> readerCount b = int (count H p) \<and> 0 \<le> readerCount b) \<and>
         (\<forall>refs. \<not> m_timelySortedBuffersMutex s \<and> mset refs \<subseteq># H \<longrightarrow>
            (\<exists>s'. unlock refs s = Inr s' \<and> s' = s\<lparr>heap := heap s'\<rparr> \<and>
               (\<forall>p b. heap s p = Some b \<longrightarrow>
                  heap s' p = Some (b\<lparr>readerCount := readerCount b - int (count (mset refs) p)\<rparr>)) \<and>
               (distinct refs \<longrightarrow>
                  (\<forall>p \<in> set refs. \<exists>b. heap s p = Some b \<and>
                     heap s' p = Some (b\<lparr>readerCount := readerCount b - 1\<rparr>))))) \<and>
         (\<forall>refs p. \<not> m_timelySortedBuffersMutex s \<and> p \<in> set refs \<and>
            p \<in> set (m_timelySortedBuffers s) \<and> count H p < count (mset refs) p \<longrightarrow>
            unlock refs s = Inl AssertFailed) \<and>
         (\<forall>refs s'. unlock refs s = Inr s' \<longrightarrow>
            (\<forall>p b. heap s' p = Some b \<longrightarrow> 0 \<le> readerCount b)) \<and>
         (\<forall>refs. \<not> m_timelySortedBuffersMutex s \<and>
            set refs \<inter> set (m_timelySortedBuffers s) = {} \<longrightarrow> unlock refs s = Inr s)"
proof -
  from pool_run_inv [OF assms] have inv: "pool_inv s0 s H"
    by simp
  have unmatched: "\<forall>refs. \<not> m_timelySortedBuffersMutex s \<and>
            set refs \<inter> set (m_timelySortedBuffers s) = {} \<longrightarrow> unlock refs s = Inr s"
    by (simp add: unlock_unmatched)
  have counts: "\<forall>p b. heap s p = Some b \<longrightarrow> readerCount b = int (count H p) \<and> 0 \<le> readerCount b"
    using inv by (auto simp: pool_inv_def)
  have matched: "\<forall>refs. \<not> m_timelySortedBuffersMutex s \<and> mset refs \<subseteq># H \<longrightarrow>
            (\<exists>s'. unlock refs s = Inr s' \<and> s' = s\<lparr>heap := heap s'\<rparr> \<and>
               (\<forall>p b. heap s p = Some b \<longrightarrow>
                  heap s' p = Some (b\<lparr>readerCount := readerCount b - int (count (mset refs) p)\<rparr>)) \<and>
               (distinct refs \<longrightarrow>
                  (\<forall>p \<in> set refs. \<exists>b. heap s p = Some b \<and>
                     heap s' p = Some (b\<lparr>readerCount := readerCount b - 1\<rparr>))))"
  proof (intro allI impI)
    fix refs assume a: "\<not> m_timelySortedBuffersMutex s \<and> mset refs \<subseteq># H"
    let ?s' = "s\<lparr>heap := released refs (m_timelySortedBuffers s) (heap s)\<rparr>"
    from a inv have ok: "pool_ok s" by (simp add: pool_inv_pool_ok)
    from a have sub: "mset refs \<subseteq># H" by simp
    have 1: "unlock refs s = Inr ?s'"
      using unlock_result [OF ok, of refs] releasable_matched [OF inv sub] by simp
    have 2: "\<forall>p b. heap s p = Some b \<longrightarrow>
        heap ?s' p = Some (b\<lparr>readerCount := readerCount b - int (count (mset refs) p)\<rparr>)"
      using released_matched [OF inv sub] by simp
    have 3: "distinct refs \<longrightarrow> (\<forall>p \<in> set refs. \<exists>b. heap s p = Some b \<and>
        heap ?s' p = Some (b\<lparr>readerCount := readerCount b - 1\<rparr>))"
    proof (intro impI ballI)
      fix p assume d: "distinct refs" and p: "p \<in> set refs"
      then have c: "count (mset refs) p = 1"
        by (simp add: distinct_count_atmost_1)
      from p have "p \<in># mset refs" by simp
      with sub have "p \<in># H" by (meson mset_subset_eqD)
      from pool_inv_live [OF inv pool_inv_held [OF inv this]] obtain b where b: "heap s p = Some b"
        by blast
      from released_matched [OF inv sub b] b
      show "\<exists>b. heap s p = Some b \<and> heap ?s' p = Some (b\<lparr>readerCount := readerCount b - 1\<rparr>)"
        by (simp add: c)
    qed
    from 1 2 3 show "\<exists>s'. unlock refs s = Inr s' \<and> s' = s\<lparr>heap := heap s'\<rparr> \<and>
               (\<forall>p b. heap s p = Some b \<longrightarrow>
                  heap s' p = Some (b\<lparr>readerCount := readerCount b - int (count (mset refs) p)\<rparr>)) \<and>
               (distinct refs \<longrightarrow>
                  (\<forall>p \<in> set refs. \<exists>b. heap s p = Some b \<and>
                     heap s' p = Some (b\<lparr>readerCount := readerCount b - 1\<rparr>)))"
      by (intro exI [of _ ?s']) simp
  qed
  have excess: "\<forall>refs p. \<not> m_timelySortedBuffersMutex s \<and> p \<in> set refs \<and>
            p \<in> set (m_timelySortedBuffers s) \<and> count H p < count (mset refs) p \<longrightarrow>
            unlock refs s = Inl AssertFailed"
  proof (intro allI impI)
    fix refs p
    assume a: "\<not> m_timelySortedBuffersMutex s \<and> p \<in> set refs \<and>
            p \<in> set (m_timelySortedBuffers s) \<and> count H p < count (mset refs) p"
    with inv have ok: "pool_ok s" by (simp add: pool_inv_pool_ok)
    from a have "\<not> releasable refs (m_timelySortedBuffers s) (heap s)"
      using not_releasable_excess [OF inv, of p refs] by simp
    with unlock_result [OF ok, of refs] show "unlock refs s = Inl AssertFailed"
      by simp
  qed
  have normal: "\<forall>refs s'. unlock refs s = Inr s' \<longrightarrow>
            (\<forall>p b. heap s' p = Some b \<longrightarrow> 0 \<le> readerCount b)"
  proof (intro allI impI)
    fix refs s' p b
    assume u: "unlock refs s = Inr s'" and pb: "heap s' p = Some b"
    from u have m: "\<not> m_timelySortedBuffersMutex s"
      by (auto simp: unlock_def split: if_splits)
    with inv have ok: "pool_ok s" by (simp add: pool_inv_pool_ok)
    from unlock_result [OF ok, of refs] u
    have r: "releasable refs (m_timelySortedBuffers s) (heap s)"
      and s': "s' = s\<lparr>heap := released refs (m_timelySortedBuffers s) (heap s)\<rparr>"
      by (auto split: if_splits)
    show "0 \<le> readerCount b"
    proof (cases "p \<in> set refs \<and> p \<in> set (m_timelySortedBuffers s)")
      case True
      with pb obtain b0 where b0: "heap s p = Some b0"
        and b: "b = b0\<lparr>readerCount := readerCount b0 - int (count (mset refs) p)\<rparr>"
        by (auto simp: s' released_def)
      from r True b0 have "int (count (mset refs) p) \<le> readerCount b0"
        by (auto simp: releasable_def)
      with b show ?thesis by simp
    next
      case False
      with pb have "heap s p = Some b"
        by (auto simp: s' released_def)
      with counts show ?thesis by blast
    qed
  qed
  from counts matched excess normal unmatched show ?thesis by blast
qed

theorem unlock_matched_release_witness:
  "pool_run 2 example_session (example_borrowed, {#0#}) \<and>
   map_option readerCount (heap example_borrowed 0) = Some 1 \<and>
   (\<exists>s'. unlock [0] example_borrowed = Inr s' \<and>
      map_option readerCount (heap s' 0) = Some 0) \<and>
   unlock [0, 0] example_borrowed = Inl AssertFailed"
proof -
  note rel = unlock_matched_release [OF example_borrowed_run]
  have m: "\<not> m_timelySortedBuffersMutex example_borrowed"
    and tsb: "0 \<in> set (m_timelySortedBuffers example_borrowed)"
    and b: "heap example_borrowed 0 = Some (example_buffer t0 1)"
    by (simp_all add: example_borrowed_def example_session_def)
  from rel [THEN conjunct2, THEN conjunct1, THEN spec, of "[0]"] m
  obtain s' where u: "unlock [0] example_borrowed = Inr s'"
    and h: "\<forall>p b. heap example_borrowed p = Some b \<longrightarrow>
            heap s' p = Some (b\<lparr>readerCount := readerCount b - int (count (mset [0]) p)\<rparr>)"
    by auto
  from h b have "heap s' 0 = Some (example_buffer t0 1\<lparr>readerCount := 0\<rparr>)"
    by (simp add: example_buffer_def)
  with u have 1: "\<exists>s'. unlock [0] example_borrowed = Inr s' \<and>
      map_option readerCount (heap s' 0) = Some 0"
    by simp
  from rel [THEN conjunct2, THEN conjunct2, THEN conjunct1, THEN spec [where x = "[0, 0]"],
      THEN spec [where x = 0]] m tsb
  have 2: "unlock [0, 0] example_borrowed = Inl AssertFailed"
    by simp
  from example_borrowed_run b 1 2 show ?thesis
    by (simp add: example_buffer_def)
qed

section \<open>Stopping and finishing\<close>

lemma free_buffers_ok:
  "distinct as \<Longrightarrow> \<forall>a \<in> set as. \<exists>b. h a = Some b \<and> buffer b \<noteq> None \<Longrightarrow>
   \<exists>h'. free_buffers as h = Inr h'"
proof (induction as arbitrary: h)
  case Nil
  show ?case by simp
next
  case (Cons a as)
  from Cons.prems obtain b where b: "h a = Some b" "buffer b \<noteq> None"
    by auto
  from Cons.prems(1) have d: "distinct as"
    by simp
  have live: "\<forall>x \<in> set as. \<exists>c. (h(a \<mapsto> b\<lparr>buffer := None\<rparr>)) x = Some c \<and> buffer c \<noteq> None"
    using Cons.prems by auto
  have step: "free_buffers (a # as) h = free_buffers as (h(a \<mapsto> b\<lparr>buffer := None\<rparr>))"
    using b by auto
  from Cons.IH [OF d live] show ?case
    by (simp only: step)
qed

text \<open>The state \<open>finish\<close> leaves, given the state after the thread has been stopped.\<close>

lemma finish_result:
  assumes "finish w s = Inr s'"
  shows "\<exists>s1 h. (if m_captureThread s \<noteq> None then stopCapturing w s else Inr s) = Inr s1 \<and>
           s' = s1\<lparr>m_fileDescriptor := - 1, heap := h, m_buffers := [], m_bufferSize := 0\<rparr> \<and>
           (\<forall>a \<in> set (m_buffers s1). h a = None) \<and>
           (m_buffers s1 = [] \<longrightarrow> h = heap s1)"
proof -
  from assms obtain s1 where s1: "(if m_captureThread s \<noteq> None then stopCapturing w s else Inr s) = Inr s1"
    by (auto simp: finish_def and_then_def split: sum.splits)
  show ?thesis
  proof (cases "m_buffers s1 = []")
    case True
    with assms s1 have "s' = s1\<lparr>m_fileDescriptor := - 1, heap := heap s1, m_buffers := [], m_bufferSize := 0\<rparr>"
      by (auto simp: finish_def and_then_def split: if_splits)
    with s1 True show ?thesis
      by (intro exI [of _ s1] exI [of _ "heap s1"]) simp
  next
    case False
    with assms s1 obtain h where h: "free_buffers (m_buffers s1) (heap s1) = Inr h"
      by (auto simp: finish_def and_then_def split: if_splits sum.splits)
    with assms s1 False have "s' = s1\<lparr>m_fileDescriptor := - 1,
        heap := h |` (- set (m_buffers s1)), m_buffers := [], m_bufferSize := 0\<rparr>"
      by (auto simp: finish_def and_then_def split: if_splits)
    with s1 False show ?thesis
      by (intro exI [of _ s1] exI [of _ "h |` (- set (m_buffers s1))"]) simp
  qed
qed

lemma finish_fixpoint:
  assumes "m_captureThread s = None" and "m_fileDescriptor s = - 1" and "m_buffers s = []"
    and "m_bufferSize s = 0"
  shows "finish w s = Inr s"
  using assms by (simp add: finish_def and_then_def)

lemma finish_stop_frame:
  assumes "(if m_captureThread s \<noteq> None then stopCapturing w s else Inr s) = Inr s1"
  shows "m_captureThread s1 = None \<and> m_buffers s1 = m_buffers s \<and>
         mset (m_timelySortedBuffers s1) =
           mset (m_timelySortedBuffers s @ claimed (m_captureThread s)) \<and>
         (\<forall>p. heap s1 p = None \<longleftrightarrow> heap s p = None) \<and>
         (m_captureThread s = None \<or> m_captureThread s = Some AtLoopHead \<or>
          m_captureThread s = Some Finished \<longrightarrow>
            m_timelySortedBuffers s1 = m_timelySortedBuffers s \<and> heap s1 = heap s)"
proof (cases "m_captureThread s = None")
  case True
  with assms show ?thesis by simp
next
  case False
  with assms obtain s2 where j: "captureThread_join w (s\<lparr>m_captureThreadCancellationFlag := True\<rparr>) = Inr s2"
    and s1: "s1 = s2\<lparr>m_captureThreadCancellationFlag := False, m_captureThread := None\<rparr>"
    by (auto simp: stopCapturing_def and_then_def split: sum.splits)
  from captureThread_join_frame [OF j] show ?thesis
    by (simp add: s1)
qed

lemma finish_stop_returns:
  assumes "m_captureThread s = None \<or> m_captureThread s = Some AtLoopHead \<or>
          m_captureThread s = Some Finished"
  shows "\<exists>s1. (if m_captureThread s \<noteq> None then stopCapturing w s else Inr s) = Inr s1"
  using assms
  by (auto simp: stopCapturing_def and_then_def captureThread_join.simps)

lemma finish_returns:
  assumes "m_captureThread s = None \<or> m_captureThread s = Some AtLoopHead \<or>
          m_captureThread s = Some Finished"
    and "distinct (m_buffers s)"
    and "\<forall>a \<in> set (m_buffers s). \<exists>b. heap s a = Some b \<and> buffer b \<noteq> None"
  shows "\<exists>s'. finish w s = Inr s'"
proof -
  from finish_stop_returns [OF assms(1)]
  obtain s1 where s1: "(if m_captureThread s \<noteq> None then stopCapturing w s else Inr s) = Inr s1"
    by blast
  from finish_stop_frame [OF s1] assms(1)
  have eq: "m_buffers s1 = m_buffers s" "heap s1 = heap s"
    by simp_all
  from free_buffers_ok [OF assms(2,3)]
  obtain h where "free_buffers (m_buffers s1) (heap s1) = Inr h"
    by (auto simp: eq)
  with s1 show ?thesis
    by (simp add: finish_def and_then_def)
qed

lemma finish_finished:
  assumes "finish w s = Inr s'"
  shows "m_captureThread s' = None \<and> m_fileDescriptor s' = - 1 \<and> m_buffers s' = [] \<and>
         m_bufferSize s' = 0 \<and> (\<forall>a \<in> set (m_buffers s). heap s' a = None) \<and>
         mset (m_timelySortedBuffers s') =
           mset (m_timelySortedBuffers s @ claimed (m_captureThread s)) \<and>
         (m_captureThread s = None \<or> m_captureThread s = Some AtLoopHead \<or>
          m_captureThread s = Some Finished \<longrightarrow>
            m_timelySortedBuffers s' = m_timelySortedBuffers s)"
proof -
  from finish_result [OF assms]
  obtain s1 h where s1: "(if m_captureThread s \<noteq> None then stopCapturing w s else Inr s) = Inr s1"
    and s': "s' = s1\<lparr>m_fileDescriptor := - 1, heap := h, m_buffers := [], m_bufferSize := 0\<rparr>"
    and h: "\<forall>a \<in> set (m_buffers s1). h a = None"
    by blast
  from finish_stop_frame [OF s1] h show ?thesis
    by (simp add: s')
qed

text \<open>An \<open>init\<close> that reports failure leaves a finished session.\<close>

lemma init_failure_is_finished:
  assumes "init iw w deviceFileName pixelFormat captureWidth captureHeight buffersCount clockId
             readTimeOut s = Inr (False, s')"
  shows "m_captureThread s' = None \<and> m_fileDescriptor s' = - 1 \<and> m_buffers s' = [] \<and>
         m_bufferSize s' = 0"
proof -
  from assms obtain s1 where "finish w s1 = Inr s'"
    by (auto simp: init_def Let_def init_fail_def and_then_def
        split: if_splits prod.splits sum.splits)
  from finish_finished [OF this] show ?thesis
    by simp
qed

text \<open>
  Claim C4.  \<open>finish\<close> followed by \<open>finish\<close> is \<open>finish\<close>.  Whenever a call of
  \<open>finish\<close> returns, the session has no capture thread, no open descriptor, no
  buffers (the \<open>Buffer\<close> objects it had are gone from the heap) and buffer size 0, and
  a further call returns and leaves that state as it is.  The call does return on a
  session that has no thread, or whose thread stands at the loop test or has returned,
  provided each node of \<open>m_buffers\<close> holds storage: in particular on a session that is
  partly initialised or already finished.
\<close>

theorem finish_idempotent:
  "and_then (finish w s) (finish w') = finish w s \<and>
   (\<forall>s'. finish w s = Inr s' \<longrightarrow>
      finish w' s' = Inr s' \<and> m_captureThread s' = None \<and> m_fileDescriptor s' = - 1 \<and>
      m_buffers s' = [] \<and> m_bufferSize s' = 0 \<and> (\<forall>a \<in> set (m_buffers s). heap s' a = None)) \<and>
   ((m_captureThread s = None \<or> m_captureThread s = Some AtLoopHead \<or>
     m_captureThread s = Some Finished) \<and> distinct (m_buffers s) \<and>
    (\<forall>a \<in> set (m_buffers s). \<exists>b. heap s a = Some b \<and> buffer b \<noteq> None) \<longrightarrow>
      (\<exists>s'. finish w s = Inr s'))"
proof -
  have again: "\<forall>s'. finish w s = Inr s' \<longrightarrow>
      finish w' s' = Inr s' \<and> m_captureThread s' = None \<and> m_fileDescriptor s' = - 1 \<and>
      m_buffers s' = [] \<and> m_bufferSize s' = 0 \<and> (\<forall>a \<in> set (m_buffers s). heap s' a = None)"
  proof (intro allI impI)
    fix s' assume f: "finish w s = Inr s'"
    note fin = finish_finished [OF f]
    from fin have "finish w' s' = Inr s'"
      by (simp add: finish_fixpoint)
    with fin show "finish w' s' = Inr s' \<and> m_captureThread s' = None \<and> m_fileDescriptor s' = - 1 \<and>
      m_buffers s' = [] \<and> m_bufferSize s' = 0 \<and> (\<forall>a \<in> set (m_buffers s). heap s' a = None)"
      by simp
  qed
  then have "and_then (finish w s) (finish w') = finish w s"
    by (cases "finish w s") (simp_all add: and_then_def)
  with again finish_returns [of s w] show ?thesis
    by blast
qed

lemma example_finish: "finish (example_frame t1) example_session = Inr example_finished"
  by (simp add: finish_def and_then_def example_session_def example_finished_def
      example_buffer_def restrict_map_def fun_eq_iff)

lemma example_finish_running: "finish (example_frame t1) example_running = Inr example_finished"
  by (simp add: finish_def and_then_def stopCapturing_def captureThread_join.simps
      example_running_def example_session_def example_finished_def
      example_buffer_def restrict_map_def fun_eq_iff)

lemma example_reinit:
  "init example_device (example_frame t1) ''/dev/video0'' 0x56595559 640 480 2 1 2 example_finished
     = Inr (True, example_reinitialised)"
  by (simp add: init_def example_device_def example_finished_def example_session_def
      example_reinitialised_def
      V4L2_FIELD_NONE_def example_caps Let_def
      buggy_driver_paranoia_def init_allocate.simps and_then_def example_buffer_def t0_def)

theorem finish_idempotent_witness:
  "finish (example_frame t1) example_running = Inr example_finished \<and>
   finish (example_frame t2) example_finished = Inr example_finished \<and>
   m_captureThread example_running = Some AtLoopHead \<and>
   m_captureThread example_finished = None \<and> m_fileDescriptor example_finished = - 1 \<and>
   m_buffers example_finished = [] \<and> heap example_finished 0 = None \<and>
   heap example_finished 1 = None"
proof -
  from finish_idempotent [of "example_frame t1" example_running "example_frame t2"]
    example_finish_running
  have "finish (example_frame t2) example_finished = Inr example_finished \<and>
      m_captureThread example_finished = None \<and> m_fileDescriptor example_finished = - 1 \<and>
      m_buffers example_finished = [] \<and>
      (\<forall>a \<in> set (m_buffers example_running). heap example_finished a = None)"
    by simp
  then show ?thesis
    using example_finish_running by (simp add: example_running_def example_session_def)
qed

text \<open>
  What \<open>free_buffers\<close> has done when it returns: every listed node held storage, which
  is freed and its pointer nulled; no node is listed twice.
\<close>

lemma free_buffers_result:
  "free_buffers as h = Inr h' \<Longrightarrow>
   distinct as \<and>
   (\<forall>a \<in> set as. \<exists>b. h a = Some b \<and> buffer b \<noteq> None \<and> h' a = Some (b\<lparr>buffer := None\<rparr>)) \<and>
   (\<forall>p. p \<notin> set as \<longrightarrow> h' p = h p)"
proof (induction as arbitrary: h)
  case Nil
  then show ?case by simp
next
  case (Cons a as)
  from Cons.prems obtain b where b: "h a = Some b" "buffer b \<noteq> None"
    and run: "free_buffers as (h(a \<mapsto> b\<lparr>buffer := None\<rparr>)) = Inr h'"
    by (auto split: option.splits if_splits)
  let ?h1 = "h(a \<mapsto> b\<lparr>buffer := None\<rparr>)"
  from Cons.IH [OF run] have d: "distinct as"
    and freed: "\<And>x. x \<in> set as \<Longrightarrow>
        \<exists>c. ?h1 x = Some c \<and> buffer c \<noteq> None \<and> h' x = Some (c\<lparr>buffer := None\<rparr>)"
    and same: "\<And>p. p \<notin> set as \<Longrightarrow> h' p = ?h1 p"
    by blast+
  have na: "a \<notin> set as"
  proof
    assume "a \<in> set as"
    from freed [OF this] show False by simp
  qed
  have 1: "distinct (a # as)"
    using d na by simp
  have 2: "\<forall>x \<in> set (a # as). \<exists>c. h x = Some c \<and> buffer c \<noteq> None \<and> h' x = Some (c\<lparr>buffer := None\<rparr>)"
  proof
    fix x assume "x \<in> set (a # as)"
    then consider "x = a" | "x \<in> set as" "x \<noteq> a"
      using na by auto
    then show "\<exists>c. h x = Some c \<and> buffer c \<noteq> None \<and> h' x = Some (c\<lparr>buffer := None\<rparr>)"
    proof cases
      case 1
      with same [OF na] b show ?thesis by simp
    next
      case 2
      with freed [OF 2(1)] show ?thesis by simp
    qed
  qed
  have 3: "\<forall>p. p \<notin> set (a # as) \<longrightarrow> h' p = h p"
    using same by simp
  from 1 2 3 show ?case by blast
qed

text \<open>
  The ordering that \<open>join\<close> returns with, by the program point the thread is at when
  the caller starts to wait.
\<close>

lemma captureThread_join_unfold:
  assumes "m_captureThread s \<noteq> None" and "m_captureThread s \<noteq> Some Finished"
    and "m_captureThread s \<noteq> Some AtLoopHead" and "captureThread_join w s = Inr s'"
  shows "\<exists>s1. captureThread_step w s = Inr s1 \<and> captureThread_join w s1 = Inr s'"
  using assms by (auto simp: captureThread_join.simps [of w s] split: sum.splits)

lemma captureThread_join_at_loop_head:
  assumes "m_captureThread s = Some AtLoopHead" and "captureThread_join w s = Inr s'"
  shows "m_timelySortedBuffers s' = m_timelySortedBuffers s"
  using captureThread_join_frame [OF assms(2)] assms(1) by simp

lemma captureThread_join_publishing:
  assumes "m_captureThread s = Some (AtPublish p)" and "captureThread_join w s = Inr s'"
  shows "m_timelySortedBuffers s' = p # m_timelySortedBuffers s"
proof -
  from captureThread_join_unfold [OF _ _ _ assms(2)] assms(1)
  obtain s1 where step: "captureThread_step w s = Inr s1" and j: "captureThread_join w s1 = Inr s'"
    by auto
  from step assms(1) have "m_captureThread s1 = Some AtLoopHead"
    and "m_timelySortedBuffers s1 = p # m_timelySortedBuffers s"
    by (auto simp: captureThread_step_def split: if_splits)
  with captureThread_join_at_loop_head [OF _ j] show ?thesis
    by simp
qed

lemma captureThread_join_reading:
  assumes "m_captureThread s = Some (AtRead p)" and "captureThread_join w s = Inr s'"
  shows "m_timelySortedBuffers s' = p # m_timelySortedBuffers s"
proof -
  from captureThread_join_unfold [OF _ _ _ assms(2)] assms(1)
  obtain s1 where step: "captureThread_step w s = Inr s1" and j: "captureThread_join w s1 = Inr s'"
    by auto
  from step assms(1) have "m_captureThread s1 = Some (AtPublish p)"
    and "m_timelySortedBuffers s1 = m_timelySortedBuffers s"
    by (auto simp: captureThread_step_def split: if_splits option.splits)
  with captureThread_join_publishing [OF _ j] show ?thesis
    by simp
qed

lemma captureThread_join_claiming:
  assumes "m_captureThread s = Some AtClaim" and "captureThread_join w s = Inr s'"
  shows "\<exists>b. m_timelySortedBuffers s \<noteq> [] \<and>
             heap s (last (m_timelySortedBuffers s)) = Some b \<and>
             m_timelySortedBuffers s' =
               (if readerCount b > 0 then m_timelySortedBuffers s
                else last (m_timelySortedBuffers s) # butlast (m_timelySortedBuffers s))"
proof -
  from captureThread_join_unfold [OF _ _ _ assms(2)] assms(1)
  obtain s1 where step: "captureThread_step w s = Inr s1" and j: "captureThread_join w s1 = Inr s'"
    by auto
  from step assms(1) obtain b where ne: "m_timelySortedBuffers s \<noteq> []"
    and b: "heap s (last (m_timelySortedBuffers s)) = Some b"
    by (auto simp: captureThread_step_def split: if_splits option.splits)
  show ?thesis
  proof (cases "readerCount b > 0")
    case True
    with step assms(1) ne b have "m_captureThread s1 = Some AtLoopHead"
      and "m_timelySortedBuffers s1 = m_timelySortedBuffers s"
      by (auto simp: captureThread_step_def split: if_splits)
    with captureThread_join_at_loop_head [OF _ j] ne b True show ?thesis
      by simp
  next
    case False
    with step assms(1) ne b
    have "m_captureThread s1 = Some (AtRead (last (m_timelySortedBuffers s)))"
      and "m_timelySortedBuffers s1 = butlast (m_timelySortedBuffers s)"
      by (auto simp: captureThread_step_def split: if_splits)
    with captureThread_join_reading [OF _ j] ne b False show ?thesis
      by simp
  qed
qed

lemma captureThread_join_selecting:
  assumes "m_captureThread s = Some AtSelect" and "captureThread_join w s = Inr s'"
  shows "\<exists>b. m_timelySortedBuffers s \<noteq> [] \<and>
             heap s (last (m_timelySortedBuffers s)) = Some b \<and>
             m_timelySortedBuffers s' =
               (if readerCount b > 0 then m_timelySortedBuffers s
                else last (m_timelySortedBuffers s) # butlast (m_timelySortedBuffers s))"
proof -
  from captureThread_join_unfold [OF _ _ _ assms(2)] assms(1)
  obtain s1 where step: "captureThread_step w s = Inr s1" and j: "captureThread_join w s1 = Inr s'"
    by auto
  from step assms(1) have c: "m_captureThread s1 = Some AtClaim"
    and o: "m_timelySortedBuffers s1 = m_timelySortedBuffers s" and h: "heap s1 = heap s"
    by (auto simp: captureThread_step_def split: if_splits)
  from captureThread_join_claiming [OF c j] show ?thesis
    by (simp only: o h)
qed

text \<open>The ordering and the storage that \<open>stopCapturing\<close> hands on to the rest of \<open>finish\<close>.\<close>

lemma finish_stop_ordering:
  assumes "(if m_captureThread s \<noteq> None then stopCapturing w s else Inr s) = Inr s1"
  shows "(\<forall>p. m_captureThread s = Some (AtRead p) \<or> m_captureThread s = Some (AtPublish p) \<longrightarrow>
            m_timelySortedBuffers s1 = p # m_timelySortedBuffers s) \<and>
         (m_captureThread s = Some AtSelect \<or> m_captureThread s = Some AtClaim \<longrightarrow>
            (\<exists>b. m_timelySortedBuffers s \<noteq> [] \<and>
                 heap s (last (m_timelySortedBuffers s)) = Some b \<and>
                 m_timelySortedBuffers s1 =
                   (if readerCount b > 0 then m_timelySortedBuffers s
                    else last (m_timelySortedBuffers s) # butlast (m_timelySortedBuffers s)))) \<and>
         (\<forall>p b. heap s p = Some b \<longrightarrow> (\<exists>b'. heap s1 p = Some b' \<and> buffer b' = buffer b))"
proof (cases "m_captureThread s = None")
  case True
  with assms show ?thesis by simp
next
  case False
  let ?s = "s\<lparr>m_captureThreadCancellationFlag := True\<rparr>"
  from False assms obtain s2 where j: "captureThread_join w ?s = Inr s2"
    and s1: "s1 = s2\<lparr>m_captureThreadCancellationFlag := False, m_captureThread := None\<rparr>"
    by (auto simp: stopCapturing_def and_then_def split: sum.splits)
  have o2: "m_timelySortedBuffers s2 = m_timelySortedBuffers s1"
    and o: "m_timelySortedBuffers ?s = m_timelySortedBuffers s" and h: "heap ?s = heap s"
    by (simp_all add: s1)
  have rd: "\<forall>p. m_captureThread s = Some (AtRead p) \<or> m_captureThread s = Some (AtPublish p) \<longrightarrow>
            m_timelySortedBuffers s1 = p # m_timelySortedBuffers s"
  proof (intro allI impI)
    fix p assume "m_captureThread s = Some (AtRead p) \<or> m_captureThread s = Some (AtPublish p)"
    then show "m_timelySortedBuffers s1 = p # m_timelySortedBuffers s"
    proof
      assume "m_captureThread s = Some (AtRead p)"
      then have "m_captureThread ?s = Some (AtRead p)" by simp
      from captureThread_join_reading [OF this j] show ?thesis by (simp add: s1)
    next
      assume "m_captureThread s = Some (AtPublish p)"
      then have "m_captureThread ?s = Some (AtPublish p)" by simp
      from captureThread_join_publishing [OF this j] show ?thesis by (simp add: s1)
    qed
  qed
  have cl: "m_captureThread s = Some AtSelect \<or> m_captureThread s = Some AtClaim \<longrightarrow>
            (\<exists>b. m_timelySortedBuffers s \<noteq> [] \<and>
                 heap s (last (m_timelySortedBuffers s)) = Some b \<and>
                 m_timelySortedBuffers s1 =
                   (if readerCount b > 0 then m_timelySortedBuffers s
                    else last (m_timelySortedBuffers s) # butlast (m_timelySortedBuffers s)))"
  proof
    assume "m_captureThread s = Some AtSelect \<or> m_captureThread s = Some AtClaim"
    then show "\<exists>b. m_timelySortedBuffers s \<noteq> [] \<and>
                 heap s (last (m_timelySortedBuffers s)) = Some b \<and>
                 m_timelySortedBuffers s1 =
                   (if readerCount b > 0 then m_timelySortedBuffers s
                    else last (m_timelySortedBuffers s) # butlast (m_timelySortedBuffers s))"
    proof
      assume "m_captureThread s = Some AtSelect"
      then have "m_captureThread ?s = Some AtSelect" by simp
      from captureThread_join_selecting [OF this j] show ?thesis by (simp only: o2 o h)
    next
      assume "m_captureThread s = Some AtClaim"
      then have "m_captureThread ?s = Some AtClaim" by simp
      from captureThread_join_claiming [OF this j] show ?thesis by (simp only: o2 o h)
    qed
  qed
  from captureThread_join_frame [OF j]
  have st: "\<forall>p b. heap s p = Some b \<longrightarrow> (\<exists>b'. heap s1 p = Some b' \<and> buffer b' = buffer b)"
    by (simp add: s1)
  from rd cl st show ?thesis by blast
qed

lemma finish_steps:
  assumes "finish w s = Inr s'"
  shows "\<exists>s1 h. (if m_captureThread s \<noteq> None then stopCapturing w s else Inr s) = Inr s1 \<and>
           free_buffers (m_buffers s1) (heap s1) = Inr h \<and>
           s' = s1\<lparr>m_fileDescriptor := - 1, heap := h |` (- set (m_buffers s1)), m_buffers := [],
                   m_bufferSize := 0\<rparr>"
proof -
  from assms obtain s1 where s1: "(if m_captureThread s \<noteq> None then stopCapturing w s else Inr s) = Inr s1"
    by (auto simp: finish_def and_then_def split: sum.splits)
  show ?thesis
  proof (cases "m_buffers s1 = []")
    case True
    with assms s1 have "s' = s1\<lparr>m_fileDescriptor := - 1, heap := heap s1, m_buffers := [], m_bufferSize := 0\<rparr>"
      by (auto simp: finish_def and_then_def split: if_splits)
    with s1 True show ?thesis
      by (intro exI [of _ s1] exI [of _ "heap s1"]) (simp add: restrict_map_def)
  next
    case False
    with assms s1 obtain h where h: "free_buffers (m_buffers s1) (heap s1) = Inr h"
      by (auto simp: finish_def and_then_def split: if_splits sum.splits)
    with assms s1 False have "s' = s1\<lparr>m_fileDescriptor := - 1,
        heap := h |` (- set (m_buffers s1)), m_buffers := [], m_bufferSize := 0\<rparr>"
      by (auto simp: finish_def and_then_def split: if_splits)
    with s1 h show ?thesis
      by blast
  qed
qed

lemma example_selecting_run: "pool_run 2 example_session (example_selecting, {#})"
proof -
  let ?a = "example_session\<lparr>m_captureThread := Some AtLoopHead\<rparr>"
  have "startCapturing example_session = Inr ?a"
    by (simp add: startCapturing_def example_session_def)
  from pool_run.start [OF example_session_run this]
  have a: "pool_run 2 example_session (?a, {#})" .
  have "captureThread_step (example_frame t1) ?a = Inr example_selecting"
    by (simp add: captureThread_step_def example_session_def example_selecting_def)
  from pool_run.capture [OF a this]
  show ?thesis .
qed

lemma example_finish_selecting:
  "finish (example_frame t1) example_selecting = Inr example_finished_late"
  by (simp add: finish_def and_then_def stopCapturing_def captureThread_join.simps
      captureThread_step_def example_frame_def
      example_selecting_def example_session_def example_finished_late_def example_finished_def
      example_buffer_def restrict_map_def fun_eq_iff)

lemma example_reinit_late:
  "init example_device (example_frame t1) ''/dev/video0'' 0x56595559 640 480 2 1 2
     example_finished_late = Inr (True, example_reinitialised_late)"
  by (simp add: init_def example_device_def example_finished_late_def example_finished_def
      example_session_def example_reinitialised_late_def
      V4L2_FIELD_NONE_def example_caps Let_def
      buggy_driver_paranoia_def init_allocate.simps and_then_def example_buffer_def t0_def)

text \<open>
  Claim C5, as stated, fails on a session whose capture thread is in the middle of an
  iteration: \<open>finish\<close> waits in \<open>join\<close> until the thread has completed the iteration,
  and the thread publishes the buffer it fills at the front.  In the two-buffer session
  with the thread in \<open>select\<close>, the ordering is \<open>[0, 1]\<close> before \<open>finish\<close> and
  \<open>[1, 0]\<close> after it.
\<close>

theorem finish_reorders_running_session:
  "pool_run 2 example_session (example_selecting, {#}) \<and>
   m_captureThread example_selecting = Some AtSelect \<and>
   finish (example_frame t1) example_selecting = Inr example_finished_late \<and>
   m_timelySortedBuffers example_selecting = [0, 1] \<and>
   m_timelySortedBuffers example_finished_late = [1, 0] \<and>
   m_timelySortedBuffers example_finished_late \<noteq> m_timelySortedBuffers example_selecting"
  using example_selecting_run example_finish_selecting
  by (simp add: example_selecting_def example_finished_late_def example_session_def)

text \<open>
  Claim C5, amended.  When \<open>finish\<close> returns: every node of \<open>m_buffers\<close> held
  storage; the loop of \<open>finish\<close> has freed it (in the heap \<open>h\<close> the loop leaves, the
  storage pointer of every node is null); and \<open>m_buffers\<close> is empty, its \<open>Buffer\<close>
  objects destroyed.  \<open>finish\<close> does not write \<open>m_timelySortedBuffers\<close>: the ordering
  is as \<open>stopCapturing\<close> left it, and holds the pointers it held together with the one
  the capture thread had claimed, now dangling.  The order is the same when the session
  had no thread, or the thread stood at the loop test or had returned.  A thread in the
  middle of an iteration completes it while \<open>finish\<close> waits: a buffer \<open>p\<close> it was
  filling or about to publish is pushed to the front; a thread in \<open>select\<close> or about to
  claim moves the oldest entry to the front, unless that buffer is referenced.  A
  successful \<open>init\<close> on the finished session appends its \<open>buffersCount\<close> new pointers
  behind the stale ones.
\<close>

theorem finish_frees_storage_not_ordering:
  assumes "finish w s = Inr s'"
  shows "m_buffers s' = [] \<and>
         (\<forall>a \<in> set (m_buffers s).
            (\<exists>b. heap s a = Some b \<and> buffer b \<noteq> None) \<and> heap s' a = None) \<and>
         (\<exists>s1 h. (if m_captureThread s \<noteq> None then stopCapturing w s else Inr s) = Inr s1 \<and>
            m_timelySortedBuffers s' = m_timelySortedBuffers s1 \<and>
            free_buffers (m_buffers s) (heap s1) = Inr h \<and>
            (\<forall>a \<in> set (m_buffers s). \<exists>b. h a = Some b \<and> buffer b = None) \<and>
            heap s' = h |` (- set (m_buffers s))) \<and>
         mset (m_timelySortedBuffers s') =
           mset (m_timelySortedBuffers s @ claimed (m_captureThread s)) \<and>
         length (m_timelySortedBuffers s') =
           length (m_timelySortedBuffers s) + length (claimed (m_captureThread s)) \<and>
         (m_captureThread s = None \<or> m_captureThread s = Some AtLoopHead \<or>
          m_captureThread s = Some Finished \<longrightarrow>
            m_timelySortedBuffers s' = m_timelySortedBuffers s) \<and>
         (\<forall>p. m_captureThread s = Some (AtRead p) \<or> m_captureThread s = Some (AtPublish p) \<longrightarrow>
            m_timelySortedBuffers s' = p # m_timelySortedBuffers s) \<and>
         (m_captureThread s = Some AtSelect \<or> m_captureThread s = Some AtClaim \<longrightarrow>
            (\<exists>b. m_timelySortedBuffers s \<noteq> [] \<and>
                 heap s (last (m_timelySortedBuffers s)) = Some b \<and>
                 m_timelySortedBuffers s' =
                   (if readerCount b > 0 then m_timelySortedBuffers s
                    else last (m_timelySortedBuffers s) # butlast (m_timelySortedBuffers s)))) \<and>
         (set (m_timelySortedBuffers s @ claimed (m_captureThread s)) \<subseteq> set (m_buffers s) \<longrightarrow>
            (\<forall>p \<in> set (m_timelySortedBuffers s'). heap s' p = None)) \<and>
         (\<forall>iw w2 deviceFileName pixelFormat captureWidth captureHeight buffersCount clockId
             readTimeOut s''.
            init iw w2 deviceFileName pixelFormat captureWidth captureHeight buffersCount clockId
              readTimeOut s' = Inr (True, s'') \<longrightarrow>
            m_timelySortedBuffers s'' =
              m_timelySortedBuffers s' @ map (node_addr iw) [0..<buffersCount] \<and>
            length (m_timelySortedBuffers s'') =
              length (m_timelySortedBuffers s') + buffersCount)"
proof -
  from finish_steps [OF assms]
  obtain s1 h where s1: "(if m_captureThread s \<noteq> None then stopCapturing w s else Inr s) = Inr s1"
    and h: "free_buffers (m_buffers s1) (heap s1) = Inr h"
    and s': "s' = s1\<lparr>m_fileDescriptor := - 1, heap := h |` (- set (m_buffers s1)), m_buffers := [],
                   m_bufferSize := 0\<rparr>"
    by blast
  note stop = finish_stop_frame [OF s1]
  note ord = finish_stop_ordering [OF s1]
  note fr = free_buffers_result [OF h]
  from stop have bufs: "m_buffers s1 = m_buffers s"
    by simp
  have o: "m_timelySortedBuffers s' = m_timelySortedBuffers s1"
    by (simp add: s')
  have 1: "m_buffers s' = []"
    by (simp add: s')
  have 2: "\<forall>a \<in> set (m_buffers s).
            (\<exists>b. heap s a = Some b \<and> buffer b \<noteq> None) \<and> heap s' a = None"
  proof
    fix a assume a: "a \<in> set (m_buffers s)"
    with fr bufs obtain b1 where b1: "heap s1 a = Some b1" "buffer b1 \<noteq> None"
      by auto
    from stop have "(heap s1 a = None) = (heap s a = None)"
      by blast
    with b1 have "heap s a \<noteq> None"
      by simp
    then obtain b where b: "heap s a = Some b"
      by auto
    with ord obtain b' where "heap s1 a = Some b'" "buffer b' = buffer b"
      by blast
    with b1 have "buffer b \<noteq> None"
      by simp
    moreover from a bufs have "heap s' a = None"
      by (simp add: s')
    ultimately show "(\<exists>b. heap s a = Some b \<and> buffer b \<noteq> None) \<and> heap s' a = None"
      using b by simp
  qed
  have freed: "\<forall>a \<in> set (m_buffers s). \<exists>b. h a = Some b \<and> buffer b = None"
  proof
    fix a assume "a \<in> set (m_buffers s)"
    with fr bufs obtain b where "heap s1 a = Some b" "h a = Some (b\<lparr>buffer := None\<rparr>)"
      by auto
    then show "\<exists>b. h a = Some b \<and> buffer b = None"
      by simp
  qed
  have "(if m_captureThread s \<noteq> None then stopCapturing w s else Inr s) = Inr s1 \<and>
            m_timelySortedBuffers s' = m_timelySortedBuffers s1 \<and>
            free_buffers (m_buffers s) (heap s1) = Inr h \<and>
            (\<forall>a \<in> set (m_buffers s). \<exists>b. h a = Some b \<and> buffer b = None) \<and>
            heap s' = h |` (- set (m_buffers s))"
    using s1 o h freed by (simp add: bufs [symmetric] s')
  then have 3: "\<exists>s1 h. (if m_captureThread s \<noteq> None then stopCapturing w s else Inr s) = Inr s1 \<and>
            m_timelySortedBuffers s' = m_timelySortedBuffers s1 \<and>
            free_buffers (m_buffers s) (heap s1) = Inr h \<and>
            (\<forall>a \<in> set (m_buffers s). \<exists>b. h a = Some b \<and> buffer b = None) \<and>
            heap s' = h |` (- set (m_buffers s))"
    by blast
  from stop have m: "mset (m_timelySortedBuffers s') =
           mset (m_timelySortedBuffers s @ claimed (m_captureThread s))"
    by (simp add: o)
  from m have len: "length (m_timelySortedBuffers s') =
           length (m_timelySortedBuffers s) + length (claimed (m_captureThread s))"
    using mset_eq_length by fastforce
  from stop have idle: "m_captureThread s = None \<or> m_captureThread s = Some AtLoopHead \<or>
          m_captureThread s = Some Finished \<longrightarrow>
            m_timelySortedBuffers s' = m_timelySortedBuffers s"
    by (simp add: o)
  from ord have filling: "\<forall>p. m_captureThread s = Some (AtRead p) \<or>
            m_captureThread s = Some (AtPublish p) \<longrightarrow>
            m_timelySortedBuffers s' = p # m_timelySortedBuffers s"
    by (simp only: o) blast
  from ord have claiming: "m_captureThread s = Some AtSelect \<or> m_captureThread s = Some AtClaim \<longrightarrow>
            (\<exists>b. m_timelySortedBuffers s \<noteq> [] \<and>
                 heap s (last (m_timelySortedBuffers s)) = Some b \<and>
                 m_timelySortedBuffers s' =
                   (if readerCount b > 0 then m_timelySortedBuffers s
                    else last (m_timelySortedBuffers s) # butlast (m_timelySortedBuffers s)))"
    by (simp only: o) blast
  from m have st: "set (m_timelySortedBuffers s') =
      set (m_timelySortedBuffers s @ claimed (m_captureThread s))"
    by (rule mset_eq_setD)
  have dangling: "set (m_timelySortedBuffers s @ claimed (m_captureThread s)) \<subseteq> set (m_buffers s) \<longrightarrow>
            (\<forall>p \<in> set (m_timelySortedBuffers s'). heap s' p = None)"
    using 2 st by blast
  have reinit: "\<forall>iw w2 deviceFileName pixelFormat captureWidth captureHeight buffersCount clockId
             readTimeOut s''.
            init iw w2 deviceFileName pixelFormat captureWidth captureHeight buffersCount clockId
              readTimeOut s' = Inr (True, s'') \<longrightarrow>
            m_timelySortedBuffers s'' =
              m_timelySortedBuffers s' @ map (node_addr iw) [0..<buffersCount] \<and>
            length (m_timelySortedBuffers s'') =
              length (m_timelySortedBuffers s') + buffersCount"
  proof (intro allI impI)
    fix iw w2 deviceFileName pixelFormat captureWidth captureHeight buffersCount clockId
      readTimeOut s''
    assume i: "init iw w2 deviceFileName pixelFormat captureWidth captureHeight buffersCount
      clockId readTimeOut s' = Inr (True, s'')"
    from init_success [OF i]
    obtain s4 where alloc: "init_allocate iw 0 buffersCount s4 = Inr s''"
      and s4: "m_timelySortedBuffers s4 = m_timelySortedBuffers s'"
      by auto
    from init_allocate_result [OF alloc] s4
    have "m_timelySortedBuffers s'' =
        m_timelySortedBuffers s' @ map (node_addr iw) [0..<buffersCount]"
      by simp
    then show "m_timelySortedBuffers s'' =
              m_timelySortedBuffers s' @ map (node_addr iw) [0..<buffersCount] \<and>
            length (m_timelySortedBuffers s'') =
              length (m_timelySortedBuffers s') + buffersCount"
      by simp
  qed
  from 1 2 3 m len idle filling claiming dangling reinit show ?thesis
    by blast
qed

text \<open>
  The two-buffer session, finished while its thread waits in \<open>select\<close> and finished
  before the thread is started; and the second \<open>init\<close> after the former.
\<close>

theorem finish_frees_storage_not_ordering_witness:
  "finish (example_frame t1) example_selecting = Inr example_finished_late \<and>
   m_captureThread example_selecting = Some AtSelect \<and>
   m_timelySortedBuffers example_selecting = [0, 1] \<and>
   m_timelySortedBuffers example_finished_late = [1, 0] \<and>
   m_buffers example_selecting = [1, 0] \<and>
   m_buffers example_finished_late = [] \<and>
   map_option buffer (heap example_selecting 0) = Some (Some 202752) \<and>
   map_option buffer (heap example_selecting 1) = Some (Some 202752) \<and>
   heap example_finished_late 0 = None \<and> heap example_finished_late 1 = None \<and>
   init example_device (example_frame t1) ''/dev/video0'' 0x56595559 640 480 2 1 2
     example_finished_late = Inr (True, example_reinitialised_late) \<and>
   m_timelySortedBuffers example_reinitialised_late = [1, 0, 0, 1] \<and>
   finish (example_frame t1) example_session = Inr example_finished \<and>
   m_captureThread example_session = None \<and>
   m_timelySortedBuffers example_session = [0, 1] \<and>
   m_timelySortedBuffers example_finished = [0, 1]"
proof -
  note late = finish_frees_storage_not_ordering [OF example_finish_selecting]
  note idle = finish_frees_storage_not_ordering [OF example_finish]
  have thr: "m_captureThread example_selecting = Some AtSelect"
    and tsb: "m_timelySortedBuffers example_selecting = [0, 1]"
    and bufs: "m_buffers example_selecting = [1, 0]"
    and h0: "heap example_selecting 0 = Some (example_buffer t0 0)"
    and h1: "heap example_selecting 1 = Some (example_buffer t0 0)"
    by (simp_all add: example_selecting_def example_session_def)
  from late thr obtain b
    where hb: "heap example_selecting (last (m_timelySortedBuffers example_selecting)) = Some b"
    and ob: "m_timelySortedBuffers example_finished_late =
           (if readerCount b > 0 then m_timelySortedBuffers example_selecting
            else last (m_timelySortedBuffers example_selecting) #
                 butlast (m_timelySortedBuffers example_selecting))"
    by blast
  have l: "last (m_timelySortedBuffers example_selecting) = 1"
    "butlast (m_timelySortedBuffers example_selecting) = [0]"
    by (simp_all add: tsb)
  from hb have "b = example_buffer t0 0"
    unfolding l h1 by simp
  with ob have 1: "m_timelySortedBuffers example_finished_late = [1, 0]"
    by (simp add: l example_buffer_def)
  from late have 2: "m_buffers example_finished_late = []"
    by blast
  from late have "\<forall>a \<in> set (m_buffers example_selecting).
            (\<exists>b. heap example_selecting a = Some b \<and> buffer b \<noteq> None) \<and>
            heap example_finished_late a = None"
    by blast
  then have 3: "heap example_finished_late 0 = None \<and> heap example_finished_late 1 = None"
    by (simp add: bufs)
  have 4: "map_option buffer (heap example_selecting 0) = Some (Some 202752) \<and>
      map_option buffer (heap example_selecting 1) = Some (Some 202752)"
    unfolding h0 h1 by (simp add: example_buffer_def)
  from late have "\<forall>iw w2 deviceFileName pixelFormat captureWidth captureHeight buffersCount clockId
             readTimeOut s''.
            init iw w2 deviceFileName pixelFormat captureWidth captureHeight buffersCount clockId
              readTimeOut example_finished_late = Inr (True, s'') \<longrightarrow>
            m_timelySortedBuffers s'' =
              m_timelySortedBuffers example_finished_late @ map (node_addr iw) [0..<buffersCount] \<and>
            length (m_timelySortedBuffers s'') =
              length (m_timelySortedBuffers example_finished_late) + buffersCount"
    by blast
  from this [rule_format, OF example_reinit_late] 1
  have 5: "m_timelySortedBuffers example_reinitialised_late = [1, 0, 0, 1]"
    by (simp add: example_device_def upt_rec)
  have thr0: "m_captureThread example_session = None"
    and tsb0: "m_timelySortedBuffers example_session = [0, 1]"
    by (simp_all add: example_session_def)
  from idle thr0 have "m_timelySortedBuffers example_finished = m_timelySortedBuffers example_session"
    by blast
  with tsb0 have 6: "m_timelySortedBuffers example_finished = [0, 1]"
    by simp
  from example_finish_selecting thr tsb 1 bufs 2 3 4 example_reinit_late 5 example_finish thr0 tsb0 6
  show ?thesis
    by blast
qed

section \<open>Contention on the oldest buffer\<close>

lemma contended_claim_keeps_mutex:
  assumes "m_captureThread s = Some AtClaim" and "\<not> m_timelySortedBuffersMutex s"
    and "m_timelySortedBuffers s \<noteq> []"
    and "heap s (last (m_timelySortedBuffers s)) = Some b" and "readerCount b > 0"
  shows "captureThread_step w s =
           Inr (s\<lparr>m_timelySortedBuffersMutex := True, m_captureThread := Some AtLoopHead\<rparr>)"
  using assms by (simp add: captureThread_step_def)

lemma locked_mutex_stays_locked:
  assumes "m_timelySortedBuffersMutex s"
  shows "captureThread_step w s = Inr s' \<Longrightarrow> m_timelySortedBuffersMutex s'"
    and "m_captureThread s = Some AtClaim \<Longrightarrow> captureThread_step w s = Inl Blocked"
    and "m_captureThread s = Some (AtPublish p) \<Longrightarrow> captureThread_step w s = Inl Blocked"
    and "lockFirstNBuffers n s = Inl Blocked"
    and "unlock refs s = Inl Blocked"
    and "newerBuffersAvailable newerThan s = Inl Blocked"
  using assms
  by (auto simp: captureThread_step_def lockFirstNBuffers_def unlock_def newerBuffersAvailable_def
      split: option.splits capture_pc.splits if_splits)

text \<open>
  Claim C1 (the source departs from it).  A caller holds both buffers of the two-buffer
  session when the capture thread arrives at its claim.  The thread locks the mutex,
  finds the oldest buffer referenced and goes back to the loop test by \<open>continue\<close>
  without unlocking.  It passes the readiness wait once more and then waits at
  \<open>lock()\<close> for the mutex it holds itself; the caller's \<open>unlock\<close>, which would free the
  buffer, and every further \<open>lockFirstNBuffers\<close> wait for the same mutex.
\<close>

theorem contended_claim_never_unlocks:
  "pool_run 2 example_session (example_held, {#0, 1#}) \<and>
   captureThread_step (example_frame t1) example_held = Inr example_stuck \<and>
   m_timelySortedBuffersMutex example_stuck \<and>
   captureThread_step (example_frame t2) example_stuck =
     Inr (example_stuck\<lparr>m_captureThread := Some AtSelect\<rparr>) \<and>
   captureThread_step (example_frame t2) (example_stuck\<lparr>m_captureThread := Some AtSelect\<rparr>) =
     Inr (example_stuck\<lparr>m_captureThread := Some AtClaim\<rparr>) \<and>
   captureThread_step (example_frame t2) (example_stuck\<lparr>m_captureThread := Some AtClaim\<rparr>) =
     Inl Blocked \<and>
   unlock [0, 1] (example_stuck\<lparr>m_captureThread := Some AtClaim\<rparr>) = Inl Blocked \<and>
   lockFirstNBuffers 1 (example_stuck\<lparr>m_captureThread := Some AtClaim\<rparr>) = Inl Blocked"
proof -
  have 1: "captureThread_step (example_frame t1) example_held = Inr example_stuck"
    by (simp add: captureThread_step_def example_held_def example_stuck_def example_session_def
        example_buffer_def)
  have 2: "m_timelySortedBuffersMutex example_stuck"
    by (simp add: example_stuck_def)
  have 3: "captureThread_step (example_frame t2) example_stuck =
     Inr (example_stuck\<lparr>m_captureThread := Some AtSelect\<rparr>)"
    by (simp add: captureThread_step_def example_held_def example_stuck_def example_session_def)
  have 4: "captureThread_step (example_frame t2) (example_stuck\<lparr>m_captureThread := Some AtSelect\<rparr>) =
     Inr (example_stuck\<lparr>m_captureThread := Some AtClaim\<rparr>)"
    by (simp add: captureThread_step_def example_frame_def)
  have 5: "captureThread_step (example_frame t2) (example_stuck\<lparr>m_captureThread := Some AtClaim\<rparr>) =
     Inl Blocked"
    by (simp add: captureThread_step_def 2)
  have 6: "unlock [0, 1] (example_stuck\<lparr>m_captureThread := Some AtClaim\<rparr>) = Inl Blocked"
    by (simp add: unlock_def 2)
  have 7: "lockFirstNBuffers 1 (example_stuck\<lparr>m_captureThread := Some AtClaim\<rparr>) = Inl Blocked"
    by (simp add: lockFirstNBuffers_def 2)
  from example_held_run 1 2 3 4 5 6 7 show ?thesis
    by blast
qed

end
